theory Spec2Isabelle
  imports Complex_Main
begin

section \<open>Strings: split and join on the dot\<close>

text \<open>
  A Python \<open>str\<close> is modelled as a \<open>string\<close>, one \<open>char\<close> per character, so
  the model covers the characters with code points below 256. Among these the regular
  expression class \<open>\d\<close> and \<open>int()\<close> accept exactly \<open>0\<close> to \<open>9\<close>, and
  \<open>str.isdigit\<close> accepts these and the three superscript digits U+00B2, U+00B3 and
  U+00B9.
\<close>

definition dot :: char where
  "dot = CHR ''.''"

definition newline :: char where
  "newline = CHR 0x0A"

text \<open>\<open>'.'.join(parts)\<close>\<close>

fun join_dot :: "string list \<Rightarrow> string" where
  "join_dot [] = []"
| "join_dot [x] = x"
| "join_dot (x # y # r) = x @ dot # join_dot (y # r)"

text \<open>\<open>s.split('.')\<close>: never empty, \<open>''.split('.')\<close> is \<open>['']\<close>.\<close>

fun split_dot :: "string \<Rightarrow> string list" where
  "split_dot [] = [[]]"
| "split_dot (c # cs) =
     (if c = dot then [] # split_dot cs
      else (case split_dot cs of [] \<Rightarrow> [[c]] | p # ps \<Rightarrow> (c # p) # ps))"

definition is_digit :: "char \<Rightarrow> bool" where
  "is_digit c = (c \<in> set ''0123456789'')"

definition is_superscript_digit :: "char \<Rightarrow> bool" where
  "is_superscript_digit c = (c \<in> set [CHR 0xB2, CHR 0xB3, CHR 0xB9])"

text \<open>\<open>s.isdigit()\<close>: there is at least one character and \<open>str.isdigit\<close> accepts
  each.\<close>

definition isdigit :: "string \<Rightarrow> bool" where
  "isdigit s = (s \<noteq> [] \<and> list_all (\<lambda>c. is_digit c \<or> is_superscript_digit c) s)"

section \<open>The veto patterns\<close>

text \<open>
  The eight patterns of \<open>VETO\<close> use only literals, alternatives of literals,
  character classes, a starred character class and the end anchor, in sequence.
  \<open>rx_match p s\<close> is \<open>re.compile(p).match(s) is not None\<close>: the pattern matches
  some prefix of \<open>s\<close>, starting at its first character. The class \<open>.\<close> is every
  character but the newline, and \<open>$\<close> holds at the end of the string and just before
  a newline that ends it.
\<close>

datatype rx =
    Lit string
  | Alt "string list"
  | Cls "char \<Rightarrow> bool"
  | Star "char \<Rightarrow> bool"
  | Eol

fun rx_match :: "rx list \<Rightarrow> string \<Rightarrow> bool" where
  "rx_match [] s = True"
| "rx_match (Lit l # r) s =
     (take (length l) s = l \<and> rx_match r (drop (length l) s))"
| "rx_match (Alt ls # r) s =
     list_ex (\<lambda>l. take (length l) s = l \<and> rx_match r (drop (length l) s)) ls"
| "rx_match (Cls c # r) s =
     (case s of [] \<Rightarrow> False | x # xs \<Rightarrow> c x \<and> rx_match r xs)"
| "rx_match (Star c # r) s =
     (rx_match r s \<or> (case s of [] \<Rightarrow> False | x # xs \<Rightarrow> c x \<and> rx_match (Star c # r) xs))"
| "rx_match (Eol # r) s = ((s = [] \<or> s = [newline]) \<and> rx_match r s)"

definition any_char :: "char \<Rightarrow> bool" where
  "any_char c = (c \<noteq> newline)"

definition not_dot :: "char \<Rightarrow> bool" where
  "not_dot c = (c \<noteq> dot)"

definition T_or_R :: "char \<Rightarrow> bool" where
  "T_or_R c = (c = CHR ''T'' \<or> c = CHR ''R'')"

definition VETO :: "rx list list" where
  "VETO =
    [ [Star any_char, Lit ''_I'', Eol],
      [Star any_char, Lit ''.'',
       Alt [''reboots'', ''discovered'', ''since'', ''uptime'', ''runtime'', ''freq'',
            ''CPUTemp'', ''outputFreq'', ''current-date-time''], Eol],
      [Star any_char, Lit ''.stringId''],
      [Star any_char, Lit ''.FanCtrl('', Cls is_digit, Star is_digit, Lit '')'', Eol],
      [Star any_char, Lit ''.SFP #'', Cls is_digit, Star is_digit, Lit '' '',
       Cls T_or_R, Lit ''x'', Eol],
      [Star any_char, Lit ''.'',
       Alt [''volts'', ''currents'', ''counters'', ''temps'', ''fans''],
       Lit ''.'', Cls not_dot, Star not_dot, Eol],
      [Star any_char, Lit ''.SFP #'', Cls is_digit, Star is_digit, Lit '' Temp'', Eol],
      [Lit ''_'', Star any_char] ]"

text \<open>\<open>any([_.match(path_str) for _ in VETO])\<close>\<close>

definition veto :: "string \<Rightarrow> bool" where
  "veto path_str = list_ex (\<lambda>p. rx_match p path_str) VETO"

section \<open>Snapshots\<close>

text \<open>
  What \<open>res.json()\<close> returns: \<open>None\<close>, \<open>bool\<close>, \<open>int\<close>, \<open>float\<close>, \<open>str\<close>, \<open>list\<close>
  or \<open>dict\<close>. A \<open>dict\<close> keeps its insertion order, so it is an association list
  (a Python \<open>dict\<close> has no key twice). A finite \<open>float\<close> is modelled by the rational
  it denotes; \<open>json.loads\<close> also accepts \<open>NaN\<close>, \<open>Infinity\<close> and \<open>-Infinity\<close>.
\<close>

datatype pyfloat = Finite rat | PosInf | NegInf | NaN

datatype scalar = SNull | SBool bool | SInt int | SFloat pyfloat | SStr string

datatype json = Scalar scalar | JList "json list" | JMap "(string \<times> json) list"

datatype exn =
    TypeError
  | AttributeError
  | KeyError
  | IndexError
  | ValueError
  | ConnectionError string
  | ReadTimeout string
  | ChunkedEncodingError string
  | HTTPError string
  | OtherException string

text \<open>
  Python's \<open>==\<close> on scalars: \<open>bool\<close> is a subclass of \<open>int\<close>, and finite numbers
  of different types are compared by value (\<open>True == 1 == 1.0\<close>). An infinity is equal
  to itself only, and \<open>NaN\<close> is equal to nothing, itself included.
\<close>

fun num_val :: "scalar \<Rightarrow> rat option" where
  "num_val (SBool b) = Some (if b then 1 else 0)"
| "num_val (SInt i) = Some (of_int i)"
| "num_val (SFloat (Finite r)) = Some r"
| "num_val (SFloat f) = None"
| "num_val SNull = None"
| "num_val (SStr s) = None"

fun scalar_eq :: "scalar \<Rightarrow> scalar \<Rightarrow> bool" where
  "scalar_eq SNull y = (y = SNull)"
| "scalar_eq (SStr s) y = (y = SStr s)"
| "scalar_eq (SFloat NaN) y = False"
| "scalar_eq (SFloat PosInf) y = (y = SFloat PosInf)"
| "scalar_eq (SFloat NegInf) y = (y = SFloat NegInf)"
| "scalar_eq x y = (num_val y \<noteq> None \<and> num_val x = num_val y)"

text \<open>\<open>v == w\<close> for a scalar \<open>v\<close>: a scalar is never equal to a list or a dict.\<close>

fun scalar_eq_json :: "scalar \<Rightarrow> json \<Rightarrow> bool" where
  "scalar_eq_json x (Scalar y) = scalar_eq x y"
| "scalar_eq_json x (JList ys) = False"
| "scalar_eq_json x (JMap m) = False"

definition is_substring :: "string \<Rightarrow> string \<Rightarrow> bool" where
  "is_substring k s = list_ex (\<lambda>i. take (length k) (drop i s) = k) [0..<Suc (length s)]"

text \<open>
  \<open>k in b\<close> for a string \<open>k\<close>: key membership in a dict, element membership in a
  list, substring test in a string, \<open>TypeError\<close> on the other scalars.
\<close>

fun contains :: "json \<Rightarrow> string \<Rightarrow> exn + bool" where
  "contains (JMap m) k = Inr (k \<in> set (map fst m))"
| "contains (JList xs) k = Inr (Scalar (SStr k) \<in> set xs)"
| "contains (Scalar (SStr s)) k = Inr (is_substring k s)"
| "contains (Scalar x) k = Inl TypeError"

text \<open>\<open>b[k]\<close> for a string \<open>k\<close>: only a dict can be indexed by a string.\<close>

fun getitem :: "json \<Rightarrow> string \<Rightarrow> exn + json" where
  "getitem (JMap m) k = (case map_of m k of None \<Rightarrow> Inl KeyError | Some v \<Rightarrow> Inr v)"
| "getitem (JList xs) k = Inl TypeError"
| "getitem (Scalar x) k = Inl TypeError"

text \<open>\<open>b.keys()\<close>\<close>

fun keys_of :: "json \<Rightarrow> exn + string list" where
  "keys_of (JMap m) = Inr (map fst m)"
| "keys_of (JList xs) = Inl AttributeError"
| "keys_of (Scalar x) = Inl AttributeError"

text \<open>
  \<open>set(x)\<close>, as the list of its elements: the elements of a list (which must be
  hashable, so scalars), the keys of a dict, the characters of a string.
\<close>

fun the_scalar :: "json \<Rightarrow> scalar option" where
  "the_scalar (Scalar x) = Some x"
| "the_scalar (JList xs) = None"
| "the_scalar (JMap m) = None"

fun set_of :: "json \<Rightarrow> exn + scalar list" where
  "set_of (JList xs) =
     (if list_all (\<lambda>x. the_scalar x \<noteq> None) xs then Inr (map (\<lambda>x. the (the_scalar x)) xs)
      else Inl TypeError)"
| "set_of (JMap m) = Inr (map (\<lambda>kv. SStr (fst kv)) m)"
| "set_of (Scalar (SStr s)) = Inr (map (\<lambda>c. SStr [c]) s)"
| "set_of (Scalar x) = Inl TypeError"

text \<open>
  An element is found in a set when it is the same object as a member or equal to one.
  \<open>json.loads\<close> returns one and the same object for every \<open>NaN\<close> it reads, so a
  \<open>NaN\<close> of one snapshot is found in a set that holds a \<open>NaN\<close> of the other.
\<close>

definition same_element :: "scalar \<Rightarrow> scalar \<Rightarrow> bool" where
  "same_element x y = ((x = SFloat NaN \<and> y = SFloat NaN) \<or> scalar_eq x y)"

text \<open>\<open>len(A - B) != 0\<close>: some element of \<open>A\<close> is not found in \<open>B\<close>.\<close>

definition diff_nonempty :: "scalar list \<Rightarrow> scalar list \<Rightarrow> bool" where
  "diff_nonempty A B = list_ex (\<lambda>x. \<not> list_ex (\<lambda>y. same_element x y) B) A"

section \<open>The structural comparison\<close>

text \<open>
  \<open>dict_compare(a, b, path)\<close>. \<open>items_loop\<close> is the loop over \<open>a.items()\<close> with
  the list \<open>result\<close> built so far. In the list branch the source appends
  \<open>working_path.join('.')\<close>; \<open>working_path\<close> is a list, which has no \<open>join\<close>, so
  an \<open>AttributeError\<close> is raised there. The second loop runs over a Python \<open>set\<close>,
  whose iteration order is not fixed; the model lists the added keys in the order of \<open>b\<close>,
  and no statement below depends on that order.
\<close>

fun dict_compare :: "json \<Rightarrow> json \<Rightarrow> string list \<Rightarrow> exn + string list"
  and items_loop :: "(string \<times> json) list \<Rightarrow> json \<Rightarrow> string list \<Rightarrow> string list
                       \<Rightarrow> exn + string list" where
  "dict_compare (JMap a) b path =
     (case items_loop a b path [] of
        Inl e \<Rightarrow> Inl e
      | Inr result \<Rightarrow>
          (case keys_of b of
             Inl e \<Rightarrow> Inl e
           | Inr bkeys \<Rightarrow>
               Inr (result @ map (\<lambda>k. join_dot (path @ [k]))
                                 (filter (\<lambda>k. k \<notin> set (map fst a)) bkeys))))"
| "dict_compare (JList xs) b path = Inl AttributeError"
| "dict_compare (Scalar x) b path = Inl AttributeError"
| "items_loop [] b path result = Inr result"
| "items_loop ((k, v) # rest) b path result =
     (case contains b k of
        Inl e \<Rightarrow> Inl e
      | Inr False \<Rightarrow> items_loop rest b path (result @ [join_dot (path @ [k])])
      | Inr True \<Rightarrow>
          (case v of
             JMap m \<Rightarrow>
               (case getitem b k of
                  Inl e \<Rightarrow> Inl e
                | Inr bk \<Rightarrow>
                    (case dict_compare (JMap m) bk (path @ [k]) of
                       Inl e \<Rightarrow> Inl e
                     | Inr sub \<Rightarrow> items_loop rest b path (result @ sub)))
           | JList xs \<Rightarrow>
               if veto (join_dot (path @ [k])) then items_loop rest b path result
               else
                 (case set_of (JList xs) of
                    Inl e \<Rightarrow> Inl e
                  | Inr sv \<Rightarrow>
                      (case getitem b k of
                         Inl e \<Rightarrow> Inl e
                       | Inr bk \<Rightarrow>
                           (case set_of bk of
                              Inl e \<Rightarrow> Inl e
                            | Inr sb \<Rightarrow>
                                if diff_nonempty sv sb \<or> \<not> diff_nonempty sb sv
                                then Inl AttributeError
                                else items_loop rest b path result)))
           | Scalar x \<Rightarrow>
               if veto (join_dot (path @ [k])) then items_loop rest b path result
               else
                 (case getitem b k of
                    Inl e \<Rightarrow> Inl e
                  | Inr bk \<Rightarrow>
                      if \<not> scalar_eq_json x bk
                      then items_loop rest b path (result @ [join_dot (path @ [k])])
                      else items_loop rest b path result)))"

section \<open>Logging and the HTTP transport\<close>

text \<open>
  A call of a \<open>logging\<close> method is recorded as it is made: the logger, the level, the
  format string and the arguments, unformatted (as \<open>logging.LogRecord\<close> keeps them).
  Whether a handler then emits the record depends on the level set in \<open>main\<close>, which is
  not modelled.
\<close>

type_synonym timestamp = rat

datatype level = DEBUG | INFO | WARNING | ERROR

datatype logger = LOG | OUTPUT

datatype arg = AStr string | AInt int | ATime timestamp | AExn exn | AVal json

type_synonym log_record = "logger \<times> level \<times> string \<times> arg list"

text \<open>
  \<open>requests.get\<close> either raises or returns a response, of which the code reads the
  status code and the parsed body (\<open>res.json()\<close> raises a \<open>ValueError\<close> when the body
  is not JSON: \<open>body\<close> is \<open>None\<close> then). A request is the URL with its query parameters.
  Of the exceptions of \<open>requests\<close>, \<open>ConnectionError\<close> stands for a connection that
  is refused, unreachable, reset or timed out while connecting, \<open>ReadTimeout\<close> for a
  peer that stops answering once connected, and \<open>ChunkedEncodingError\<close> for a connection
  broken while the body is read; the last two are not subclasses of \<open>ConnectionError\<close>.
\<close>

record response =
  status_code :: int
  body :: "json option"

datatype get_result = Raised exn | Returned response

type_synonym request = "string \<times> (string \<times> string) list"

type_synonym env = "request \<Rightarrow> get_result"

definition digit_char :: "nat \<Rightarrow> char" where
  "digit_char n = char_of (48 + n)"

text \<open>\<open>str(n)\<close> for an integer.\<close>

fun str_nat :: "nat \<Rightarrow> string" where
  "str_nat n = (if n < 10 then [digit_char n] else str_nat (n div 10) @ [digit_char (n mod 10)])"

definition str_int :: "int \<Rightarrow> string" where
  "str_int i = (if i < 0 then CHR ''-'' # str_nat (nat (- i)) else str_nat (nat i))"

text \<open>
  \<open>Response.raise_for_status()\<close> of \<open>requests\<close>: an \<open>HTTPError\<close> for a status
  from 400 to 599, nothing otherwise. The model's \<open>HTTPError\<close> carries the status.
\<close>

definition raise_for_status :: "response \<Rightarrow> exn + unit" where
  "raise_for_status res =
     (if 400 \<le> status_code res \<and> status_code res < 600
      then Inl (HTTPError (str_int (status_code res))) else Inr ())"

section \<open>The processor\<close>

definition BROMPTON_URL :: "string \<Rightarrow> string" where
  "BROMPTON_URL h = ''http://'' @ h @ ''/api/''"

definition MEGAPIXEL_URL :: "string \<Rightarrow> string" where
  "MEGAPIXEL_URL h = ''http://'' @ h @ ''/api/v1/data''"

definition max_samples :: nat where
  "max_samples = 3"

record processor =
  url :: string
  host :: string
  manu :: string
  ident :: string
  data :: "(timestamp \<times> json) list"

text \<open>\<open>__repr__\<close>\<close>

definition repr :: "processor \<Rightarrow> string" where
  "repr p = ''<'' @ ident p @ ''>''"

text \<open>\<open>int(host[-1])\<close>: \<open>IndexError\<close> on the empty string, \<open>ValueError\<close> on a
  character that is not a digit.\<close>

definition int_last_char :: "string \<Rightarrow> exn + int" where
  "int_last_char h =
     (if h = [] then Inl IndexError
      else if is_digit (last h) then Inr (int (of_char (last h)) - 48)
      else Inl ValueError)"

text \<open>
  \<open>Processor.__init__\<close>, in two parts: the probes, which settle \<open>url\<close> and \<open>manu\<close>,
  and \<open>init_identity\<close>, the rest of the constructor from \<open>self.id = ...\<close> on. The
  result carries the requests issued, in order, and the log records.
\<close>

definition init_identity :: "request list \<Rightarrow> log_record list \<Rightarrow> string \<Rightarrow> string \<Rightarrow> string
    \<Rightarrow> request list \<times> log_record list \<times> (exn + processor)" where
  "init_identity reqs logs u h m =
     (let id0 = m @ '' '' @ h;
          ip_parts = split_dot h
      in if isdigit (last ip_parts)
         then (case int_last_char h of
                 Inl e \<Rightarrow> (reqs, logs, Inl e)
               | Inr n \<Rightarrow>
                   (let p = \<lparr>url = u, host = h, manu = m,
                             ident = m @ '' '' @ str_int (n + 1), data = []\<rparr>
                    in (reqs, logs @ [(LOG, INFO, ''Initialized %s'', [AStr (repr p)])], Inr p)))
         else (let p = \<lparr>url = u, host = h, manu = m, ident = id0, data = []\<rparr>
               in (reqs, logs @ [(LOG, INFO, ''Initialized %s'', [AStr (repr p)])], Inr p)))"

definition megapixel_request :: "string \<Rightarrow> request" where
  "megapixel_request h = (MEGAPIXEL_URL h, [(''sys.info.serial'', [])])"

definition brompton_request :: "string \<Rightarrow> request" where
  "brompton_request h = (BROMPTON_URL h @ ''system/processor-type'', [])"

definition Processor_init :: "env \<Rightarrow> string
    \<Rightarrow> request list \<times> log_record list \<times> (exn + processor)" where
  "Processor_init get h =
     (case get (megapixel_request h) of
        Raised e \<Rightarrow> ([megapixel_request h], [], Inl e)
      | Returned res \<Rightarrow>
          if \<not> (199 < status_code res \<and> status_code res < 300)
          then
            (let logs = [(LOG, DEBUG, ''Failed megapixel URL check: %s'',
                          [AInt (status_code res)])];
                 reqs = [megapixel_request h, brompton_request h]
             in case get (brompton_request h) of
                  Raised e \<Rightarrow> (reqs, logs, Inl e)
                | Returned res2 \<Rightarrow>
                    (case raise_for_status res2 of
                       Inl e \<Rightarrow> (reqs, logs, Inl e)
                     | Inr u \<Rightarrow> init_identity reqs logs (BROMPTON_URL h) h ''Brompton''))
          else init_identity [megapixel_request h] [] (MEGAPIXEL_URL h) h ''Megapixel'')"

text \<open>\<open>xs[-n:]\<close> for a positive \<open>n\<close>: the last \<open>n\<close> elements, all of them if there are fewer.\<close>

definition last_n :: "nat \<Rightarrow> 'a list \<Rightarrow> 'a list" where
  "last_n n xs = drop (length xs - n) xs"

text \<open>
  \<open>Processor.sample\<close>, given the time read and what \<open>requests.get(self.url)\<close> does
  this time. Only \<open>ConnectionError\<close> is caught; any other exception leaves the method.
\<close>

definition sample :: "timestamp \<Rightarrow> get_result \<Rightarrow> processor
    \<Rightarrow> log_record list \<times> (exn + processor)" where
  "sample ts r p =
     (case r of
        Raised e \<Rightarrow>
          (case e of
             ConnectionError msg \<Rightarrow> ([(LOG, WARNING, ''%s %s'', [AStr (repr p), AExn e])], Inr p)
           | _ \<Rightarrow> ([], Inl e))
      | Returned res \<Rightarrow>
          if 199 < status_code res \<and> status_code res < 300
          then (case body res of
                  None \<Rightarrow> ([], Inl ValueError)
                | Some j \<Rightarrow>
                    ([(LOG, DEBUG, ''%s appended data sample'', [AStr (repr p)])],
                     Inr (p\<lparr>data := last_n max_samples (data p @ [(ts, j)])\<rparr>)))
          else ([(LOG, WARNING, ''Error %s loading data from %s'',
                  [AInt (status_code res), AStr (repr p)])],
                Inr (p\<lparr>data := last_n max_samples (data p)\<rparr>)))"

text \<open>
  \<open>get_value(cursor, address)\<close>: the loop over \<open>address.split('.')\<close>. A missing key
  is logged and the function returns \<open>None\<close>, which is also what a JSON \<open>null\<close> is.
\<close>

fun get_value_loop :: "json \<Rightarrow> string list \<Rightarrow> string \<Rightarrow> log_record list \<times> (exn + json)" where
  "get_value_loop cursor [] address = ([], Inr cursor)"
| "get_value_loop cursor (part # parts) address =
     (case getitem cursor part of
        Inl KeyError \<Rightarrow>
          ([(LOG, WARNING, ''KeyError: %s (%s)'', [AStr part, AStr address])], Inr (Scalar SNull))
      | Inl e \<Rightarrow> ([], Inl e)
      | Inr c \<Rightarrow> get_value_loop c parts address)"

definition get_value :: "json \<Rightarrow> string \<Rightarrow> log_record list \<times> (exn + json)" where
  "get_value cursor address = get_value_loop cursor (split_dot address) address"

text \<open>The loop \<open>for key in changes\<close> of \<open>Processor.compare\<close>.\<close>

fun report_changes :: "processor \<Rightarrow> json \<Rightarrow> json \<Rightarrow> string list
    \<Rightarrow> log_record list \<times> (exn + unit)" where
  "report_changes p data_a data_b [] = ([], Inr ())"
| "report_changes p data_a data_b (key # rest) =
     (case get_value data_a key of
        (la, Inl e) \<Rightarrow> (la, Inl e)
      | (la, Inr va) \<Rightarrow>
          (case get_value data_b key of
             (lb, Inl e) \<Rightarrow> (la @ lb, Inl e)
           | (lb, Inr vb) \<Rightarrow>
               (case report_changes p data_a data_b rest of
                  (lr, r) \<Rightarrow>
                    (la @ lb @ (OUTPUT, INFO, ''%s:%s: %s -> %s'',
                                [AStr (repr p), AStr key, AVal va, AVal vb]) # lr, r))))"

text \<open>\<open>Processor.compare\<close>\<close>

definition Processor_compare :: "processor \<Rightarrow> log_record list \<times> (exn + unit)" where
  "Processor_compare p =
     (case last_n 2 (data p) of
        [(timestamp_a, data_a), (timestamp_b, data_b)] \<Rightarrow>
          (let l0 = (LOG, DEBUG, ''%s comparing sample from %s to %s'',
                     [AStr (repr p), ATime timestamp_a, ATime timestamp_b])
           in case dict_compare data_a data_b [] of
                Inl e \<Rightarrow> ([l0], Inl e)
              | Inr changes \<Rightarrow>
                  (case report_changes p data_a data_b changes of (lr, r) \<Rightarrow> (l0 # lr, r)))
      | _ \<Rightarrow> ([], Inr ()))"

section \<open>The main loop\<close>

text \<open>
  The loop of \<open>main\<close> that builds \<open>processors\<close>: a host whose constructor raises
  \<open>ConnectionError\<close> or \<open>HTTPError\<close> is logged and skipped; any other exception
  leaves \<open>main\<close>.
\<close>

fun is_caught :: "exn \<Rightarrow> bool" where
  "is_caught (ConnectionError msg) = True"
| "is_caught (HTTPError msg) = True"
| "is_caught e = False"

fun init_processors :: "env \<Rightarrow> string list \<Rightarrow> processor list
    \<Rightarrow> log_record list \<times> (exn + processor list)" where
  "init_processors get [] processors = ([], Inr processors)"
| "init_processors get (h # hosts) processors =
     (case Processor_init get h of
        (reqs, logs, Inr p) \<Rightarrow>
          (case init_processors get hosts (processors @ [p]) of (lr, r) \<Rightarrow> (logs @ lr, r))
      | (reqs, logs, Inl e) \<Rightarrow>
          if is_caught e
          then (case init_processors get hosts processors of
                  (lr, r) \<Rightarrow>
                    (logs @ (LOG, WARNING, ''Ignoring %s due to %s'', [AStr h, AExn e]) # lr, r))
          else (logs, Inl e))"

text \<open>One turn of the polling loop for one processor: \<open>proc.sample()\<close>, then
  \<open>proc.compare()\<close>.\<close>

definition poll :: "timestamp \<Rightarrow> get_result \<Rightarrow> processor
    \<Rightarrow> log_record list \<times> (exn + processor)" where
  "poll ts r p =
     (case sample ts r p of
        (ls, Inl e) \<Rightarrow> (ls, Inl e)
      | (ls, Inr p') \<Rightarrow>
          (case Processor_compare p' of
             (lc, Inl e) \<Rightarrow> (ls @ lc, Inl e)
           | (lc, Inr u) \<Rightarrow> (ls @ lc, Inr p')))"

text \<open>
  The start of \<open>main\<close>, from \<open>processors = []\<close> to the count of the ignored hosts.
\<close>

definition start_processors :: "env \<Rightarrow> string list \<Rightarrow> log_record list \<times> (exn + processor list)" where
  "start_processors get hosts =
     (let l0 = (LOG, DEBUG, ''Initializing processor objects'', [])
      in case init_processors get hosts [] of
           (lr, Inl e) \<Rightarrow> (l0 # lr, Inl e)
         | (lr, Inr processors) \<Rightarrow>
             if length hosts \<noteq> length processors
             then (l0 # lr @ [(LOG, ERROR, ''%d host(s) will be ignored for this session.'',
                               [AInt (int (length hosts) - int (length processors))])],
                   Inr processors)
             else (l0 # lr, Inr processors))"

section \<open>Notions used to state the properties\<close>

text \<open>
  A run of \<open>sample\<close> calls on one processor, each with the time read and the outcome of
  its request; an exception that leaves \<open>sample\<close> ends the run. \<open>appended inputs\<close>
  are the samples of the calls that reach \<open>self.data.append\<close>.
\<close>

fun sample_all :: "(timestamp \<times> get_result) list \<Rightarrow> processor \<Rightarrow> exn + processor" where
  "sample_all [] p = Inr p"
| "sample_all ((ts, r) # rest) p =
     (case snd (sample ts r p) of Inl e \<Rightarrow> Inl e | Inr p' \<Rightarrow> sample_all rest p')"

fun appended :: "(timestamp \<times> get_result) list \<Rightarrow> (timestamp \<times> json) list" where
  "appended [] = []"
| "appended ((ts, Returned res) # rest) =
     (if 199 < status_code res \<and> status_code res < 300
      then (case body res of None \<Rightarrow> appended rest | Some j \<Rightarrow> (ts, j) # appended rest)
      else appended rest)"
| "appended ((ts, Raised e) # rest) = appended rest"

text \<open>The final dot-delimited segment of an address, and the value of a digit.\<close>

definition final_segment :: "string \<Rightarrow> string" where
  "final_segment h = rev (takeWhile (\<lambda>c. c \<noteq> dot) (rev h))"

definition digit_value :: "char \<Rightarrow> int" where
  "digit_value c = int (of_char c) - 48"

text \<open>
  The addresses on which \<open>int(host[-1])\<close> is not reached or reads a digit: the final
  segment is not accepted by \<open>str.isdigit\<close>, or the last character is one of \<open>0\<close>
  to \<open>9\<close>.
\<close>

definition identifier_defined :: "string \<Rightarrow> bool" where
  "identifier_defined h = (\<not> isdigit (final_segment h) \<or> is_digit (last h))"

text \<open>A response with a status and a JSON body.\<close>

definition answer :: "int \<Rightarrow> json \<Rightarrow> get_result" where
  "answer s j = Returned \<lparr>status_code = s, body = Some j\<rparr>"

definition example_processor :: processor where
  "example_processor =
     \<lparr>url = ''http://10.0.0.12/api/v1/data'', host = ''10.0.0.12'', manu = ''Megapixel'',
      ident = ''Megapixel 3'', data = []\<rparr>"

text \<open>
  \<open>descend j ks\<close> is the value reached from \<open>j\<close> through nested dicts by the keys
  \<open>ks\<close>, if there is one.
\<close>

fun descend :: "json \<Rightarrow> string list \<Rightarrow> json option" where
  "descend j [] = Some j"
| "descend (JMap m) (k # ks) = (case map_of m k of None \<Rightarrow> None | Some v \<Rightarrow> descend v ks)"
| "descend (JList xs) (k # ks) = None"
| "descend (Scalar x) (k # ks) = None"

text \<open>
  No dict of the snapshot, at any depth below dicts, has a key twice: what every Python
  \<open>dict\<close> satisfies.
\<close>

fun distinct_keys :: "json \<Rightarrow> bool" where
  "distinct_keys (JMap m) = (distinct (map fst m) \<and> (\<forall>kv \<in> set m. distinct_keys (snd kv)))"
| "distinct_keys (JList xs) = True"
| "distinct_keys (Scalar x) = True"

text \<open>
  No dict of the snapshot, at any depth below dicts, has a key with a dot in it. Then
  a dotted path names one location only.
\<close>

fun dot_free :: "json \<Rightarrow> bool" where
  "dot_free (JMap m) = (\<forall>kv \<in> set m. dot \<notin> set (fst kv) \<and> dot_free (snd kv))"
| "dot_free (JList xs) = True"
| "dot_free (Scalar x) = True"

text \<open>
  The two ways the first loop of \<open>dict_compare\<close> puts a path into its result: for one
  of its own keys (removed, or a changed scalar that no pattern vetoes), or through the
  recursive call for a key whose value is a dict.
\<close>

definition reported_here :: "(string \<times> json) list \<Rightarrow> json \<Rightarrow> string list \<Rightarrow> string \<Rightarrow> bool" where
  "reported_here items b path r =
     (\<exists>k v. (k, v) \<in> set items \<and> r = join_dot (path @ [k]) \<and>
            (contains b k = Inr False \<or> \<not> veto r))"

definition reported_below :: "(string \<times> json) list \<Rightarrow> json \<Rightarrow> string list \<Rightarrow> string \<Rightarrow> bool" where
  "reported_below items b path r =
     (\<exists>k m bk sub. (k, JMap m) \<in> set items \<and> getitem b k = Inr bk \<and>
            dict_compare (JMap m) bk (path @ [k]) = Inr sub \<and> r \<in> set sub)"

text \<open>A transport that answers the first probe with \<open>ra\<close> and any other request
  with \<open>rb\<close>.\<close>

definition probe_env :: "string \<Rightarrow> get_result \<Rightarrow> get_result \<Rightarrow> env" where
  "probe_env h ra rb r = (if r = megapixel_request h then ra else rb)"

section \<open>What the comparison reports\<close>

subsection \<open>The loop over the keys of the older snapshot\<close>

lemma items_loop_step:
  assumes "items_loop ((k, v) # items) b path result = Inr res"
  shows "\<exists>more. items_loop items b path (result @ more) = Inr res"
proof -
  from assms consider
      (same) "items_loop items b path result = Inr res"
    | (more) more where "items_loop items b path (result @ more) = Inr res"
    by (simp split: sum.splits bool.splits json.splits if_splits)
  then show ?thesis
  proof cases
    case same
    then have "items_loop items b path (result @ []) = Inr res" by simp
    then show ?thesis by blast
  next
    case more
    then show ?thesis by blast
  qed
qed

lemma items_loop_extends:
  "items_loop items b path result = Inr res \<Longrightarrow> set result \<subseteq> set res"
proof (induction items arbitrary: result)
  case Nil
  then show ?case by simp
next
  case (Cons kv items)
  obtain k v where kv: "kv = (k, v)" by (cases kv)
  from items_loop_step[OF Cons.prems[unfolded kv]] obtain more where
    "items_loop items b path (result @ more) = Inr res" by blast
  from Cons.IH[OF this] show ?case by simp
qed

lemma items_loop_removed:
  "items_loop items b path result = Inr res \<Longrightarrow> (k, v) \<in> set items \<Longrightarrow>
   contains b k = Inr False \<Longrightarrow> join_dot (path @ [k]) \<in> set res"
proof (induction items arbitrary: result)
  case Nil
  then show ?case by simp
next
  case (Cons kv items)
  obtain k' v' where kv: "kv = (k', v')" by (cases kv)
  show ?case
  proof (cases "(k, v) = kv")
    case True
    with Cons.prems kv have "items_loop items b path (result @ [join_dot (path @ [k])]) = Inr res"
      by auto
    from items_loop_extends[OF this] show ?thesis by simp
  next
    case False
    with Cons.prems have m: "(k, v) \<in> set items" by simp
    from items_loop_step[OF Cons.prems(1)[unfolded kv]]
    obtain result' where "items_loop items b path result' = Inr res" by blast
    from Cons.IH[OF this m Cons.prems(3)] show ?thesis .
  qed
qed

lemma items_loop_recurses:
  "items_loop items b path result = Inr res \<Longrightarrow> (k, JMap m) \<in> set items \<Longrightarrow>
   contains b k = Inr True \<Longrightarrow>
   \<exists>bk sub. getitem b k = Inr bk \<and> dict_compare (JMap m) bk (path @ [k]) = Inr sub \<and>
            set sub \<subseteq> set res"
proof (induction items arbitrary: result)
  case Nil
  then show ?case by simp
next
  case (Cons kv items)
  obtain k' v' where kv: "kv = (k', v')" by (cases kv)
  show ?case
  proof (cases "(k, JMap m) = kv")
    case True
    with Cons.prems kv obtain bk sub where
      g: "getitem b k = Inr bk" and d: "dict_compare (JMap m) bk (path @ [k]) = Inr sub"
      and l: "items_loop items b path (result @ sub) = Inr res"
      by (auto split: sum.splits)
    from items_loop_extends[OF l] have "set sub \<subseteq> set res" by simp
    with g d show ?thesis by blast
  next
    case False
    with Cons.prems have m: "(k, JMap m) \<in> set items" by simp
    from items_loop_step[OF Cons.prems(1)[unfolded kv]]
    obtain result' where "items_loop items b path result' = Inr res" by blast
    from Cons.IH[OF this m Cons.prems(3)] show ?thesis .
  qed
qed

lemma dict_compare_needs_map:
  "dict_compare a b path = Inr res \<Longrightarrow> (\<exists>am. a = JMap am) \<and> (\<exists>bm. b = JMap bm)"
  by (cases a; cases b) (auto split: sum.splits)

lemma dict_compare_removed:
  "dict_compare (JMap am) (JMap bm) path = Inr res \<Longrightarrow> k \<in> set (map fst am) \<Longrightarrow>
   k \<notin> set (map fst bm) \<Longrightarrow> join_dot (path @ [k]) \<in> set res"
proof -
  assume d: "dict_compare (JMap am) (JMap bm) path = Inr res"
    and ka: "k \<in> set (map fst am)" and kb: "k \<notin> set (map fst bm)"
  from ka obtain v where v: "(k, v) \<in> set am" by auto
  from d obtain result where l: "items_loop am (JMap bm) path [] = Inr result"
    and s: "set result \<subseteq> set res"
    by (auto split: sum.splits)
  from kb have "contains (JMap bm) k = Inr False" by simp
  from items_loop_removed[OF l v this] s show ?thesis by blast
qed

lemma dict_compare_added:
  assumes d: "dict_compare (JMap am) (JMap bm) path = Inr res"
    and kb: "k \<in> set (map fst bm)" and ka: "k \<notin> set (map fst am)"
  shows "join_dot (path @ [k]) \<in> set res"
proof -
  let ?added = "filter (\<lambda>k. k \<notin> set (map fst am)) (map fst bm)"
  from d have "\<exists>result. result @ map (\<lambda>k. join_dot (path @ [k])) ?added = res"
    by (simp split: sum.splits) blast
  then obtain result where r: "res = result @ map (\<lambda>k. join_dot (path @ [k])) ?added"
    by blast
  from ka kb have "k \<in> set ?added" by simp
  then have "join_dot (path @ [k]) \<in> (\<lambda>k. join_dot (path @ [k])) ` set ?added"
    by (rule imageI)
  then have "join_dot (path @ [k]) \<in> set (map (\<lambda>k. join_dot (path @ [k])) ?added)"
    by (simp only: set_map)
  then show ?thesis unfolding r set_append by blast
qed

lemma dict_compare_recurses:
  assumes "dict_compare (JMap am) (JMap bm) path = Inr res"
    and "map_of am k = Some (JMap m)" and "map_of bm k = Some bk"
  shows "\<exists>sub. dict_compare (JMap m) bk (path @ [k]) = Inr sub \<and> set sub \<subseteq> set res"
proof -
  from assms(1) obtain result where l: "items_loop am (JMap bm) path [] = Inr result"
    and s: "set result \<subseteq> set res"
    by (auto split: sum.splits)
  from assms(2) have i: "(k, JMap m) \<in> set am" by (rule map_of_SomeD)
  from assms(3) have "(k, bk) \<in> set bm" by (rule map_of_SomeD)
  then have "k \<in> set (map fst bm)" by force
  then have c: "contains (JMap bm) k = Inr True" by simp
  from items_loop_recurses[OF l i c] assms(3) s show ?thesis by auto
qed

lemma descend_Cons_map:
  "descend a (k # ks) = Some v \<Longrightarrow> \<exists>am a1. a = JMap am \<and> map_of am k = Some a1 \<and> descend a1 ks = Some v"
  by (cases a) (auto split: option.splits)

lemma descend_to_map:
  "descend a ks = Some (JMap m) \<Longrightarrow> \<exists>am. a = JMap am"
  by (cases ks; cases a) auto

subsection \<open>Removed and added keys\<close>

text \<open>
  Whenever \<open>dict_compare\<close> returns, it has reported every key that only one of the two
  snapshots has, at the top and under nested dicts that both snapshots have: for dicts
  \<open>am\<close> and \<open>bm\<close> reached by the same keys \<open>ks\<close>, each key of \<open>am\<close> that \<open>bm\<close>
  lacks and each key of \<open>bm\<close> that \<open>am\<close> lacks is in the result, with its dotted path.
  No veto pattern is in the statement: a vetoed path is reported all the same.
\<close>

lemma added_removed_reported:
  assumes "dict_compare a b path = Inr res"
    and "descend a ks = Some (JMap am)" and "descend b ks = Some (JMap bm)"
  shows "(\<forall>k \<in> set (map fst am) - set (map fst bm). join_dot (path @ ks @ [k]) \<in> set res) \<and>
         (\<forall>k \<in> set (map fst bm) - set (map fst am). join_dot (path @ ks @ [k]) \<in> set res)"
  using assms
proof (induction ks arbitrary: a b path res)
  case Nil
  then have d: "dict_compare (JMap am) (JMap bm) path = Inr res" by simp
  show ?case
    using dict_compare_removed[OF d] dict_compare_added[OF d] by simp
next
  case (Cons k0 ks)
  from Cons.prems(2) obtain a0 a1 where a: "a = JMap a0" and a1: "map_of a0 k0 = Some a1"
    and da: "descend a1 ks = Some (JMap am)"
    using descend_Cons_map by blast
  from Cons.prems(3) obtain b0 b1 where b: "b = JMap b0" and b1: "map_of b0 k0 = Some b1"
    and db: "descend b1 ks = Some (JMap bm)"
    using descend_Cons_map by blast
  from da obtain m1 where m1: "a1 = JMap m1" using descend_to_map by blast
  from dict_compare_recurses[OF Cons.prems(1)[unfolded a b] a1[unfolded m1] b1]
  obtain sub where s: "dict_compare a1 b1 (path @ [k0]) = Inr sub" and ss: "set sub \<subseteq> set res"
    unfolding m1 by blast
  have e: "\<And>k. (path @ [k0]) @ ks @ [k] = path @ (k0 # ks) @ [k]" by simp
  from Cons.IH[OF s da db] ss show ?case unfolding e by blast
qed

text \<open>
  The key \<open>fan1\<close> is removed and the key \<open>fan2\<close> is added under \<open>sys.temps\<close>:
  both paths are reported although the pattern for per-channel telemetry matches them.
\<close>

lemma vetoed_paths_of_removed_and_added_keys:
  "dict_compare
     (JMap [(''sys'', JMap [(''temps'', JMap [(''fan1'', Scalar (SInt 30))])])])
     (JMap [(''sys'', JMap [(''temps'', JMap [(''fan2'', Scalar (SInt 30))])])]) []
   = Inr [''sys.temps.fan1'', ''sys.temps.fan2''] \<and>
   veto ''sys.temps.fan1'' \<and> veto ''sys.temps.fan2''"
  by code_simp

text \<open>
  Claim C4, at a failing input. The key \<open>gone\<close> is in the older snapshot only and the
  key \<open>new\<close> in the newer one only; the list under \<open>x\<close> is the same in both. The loop
  reaches \<open>x\<close> first and raises \<open>AttributeError\<close>: neither key is reported, and
  \<open>Processor.compare\<close> raises after its debug record, without a record for \<open>OUTPUT\<close>.
\<close>

theorem removed_and_added_keys_lost:
  "dict_compare (JMap [(''x'', JList [Scalar (SInt 1)]), (''gone'', Scalar (SInt 1))])
                (JMap [(''x'', JList [Scalar (SInt 1)]), (''new'', Scalar (SInt 2))]) []
     = Inl AttributeError \<and>
   Processor_compare
     (example_processor
        \<lparr>data := [(1, JMap [(''x'', JList [Scalar (SInt 1)]), (''gone'', Scalar (SInt 1))]),
                  (2, JMap [(''x'', JList [Scalar (SInt 1)]), (''new'', Scalar (SInt 2))])]\<rparr>)
     = ([(LOG, DEBUG, ''%s comparing sample from %s to %s'',
          [AStr ''<Megapixel 3>'', ATime 1, ATime 2])], Inl AttributeError)"
  by code_simp

subsection \<open>Where a reported path comes from\<close>

lemma join_dot_Cons: "ks \<noteq> [] \<Longrightarrow> join_dot (k # ks) = k @ dot # join_dot ks"
  by (cases ks) simp_all

lemma join_dot_append:
  "xs \<noteq> [] \<Longrightarrow> join_dot (p @ xs) = (if p = [] then join_dot xs else join_dot p @ dot # join_dot xs)"
proof (induction p)
  case Nil
  then show ?case by simp
next
  case (Cons a p)
  then show ?case by (cases p) (simp_all add: join_dot_Cons)
qed

lemma join_dot_cancel:
  "xs \<noteq> [] \<Longrightarrow> ys \<noteq> [] \<Longrightarrow> join_dot (p @ xs) = join_dot (p @ ys) \<Longrightarrow> join_dot xs = join_dot ys"
  by (simp add: join_dot_append split: if_splits)

lemma dot_split_unique:
  "dot \<notin> set x \<Longrightarrow> dot \<notin> set y \<Longrightarrow> x @ dot # X = y @ dot # Y \<Longrightarrow> x = y \<and> X = Y"
proof (induction x arbitrary: y)
  case Nil
  then show ?case by (cases y) auto
next
  case (Cons c x)
  then show ?case by (cases y) auto
qed

lemma items_loop_step_cases:
  assumes "items_loop ((k, v) # items) b path result = Inr res"
  obtains
    (skip) "items_loop items b path result = Inr res"
  | (report) "items_loop items b path (result @ [join_dot (path @ [k])]) = Inr res"
      and "contains b k = Inr False \<or> \<not> veto (join_dot (path @ [k]))"
  | (recurse) m bk sub where "v = JMap m" and "getitem b k = Inr bk"
      and "dict_compare (JMap m) bk (path @ [k]) = Inr sub"
      and "items_loop items b path (result @ sub) = Inr res"
  using assms by (simp split: sum.splits bool.splits json.splits if_splits)

lemma reported_here_Cons:
  "reported_here items b path r \<Longrightarrow> reported_here (kv # items) b path r"
  unfolding reported_here_def by (auto simp del: dict_compare.simps)

lemma reported_below_Cons:
  "reported_below items b path r \<Longrightarrow> reported_below (kv # items) b path r"
  unfolding reported_below_def by (auto simp del: dict_compare.simps)

lemma reported_here_head:
  "contains b k = Inr False \<or> \<not> veto (join_dot (path @ [k])) \<Longrightarrow>
   reported_here ((k, v) # items) b path (join_dot (path @ [k]))"
  unfolding reported_here_def by (auto simp del: dict_compare.simps)

lemma reported_below_head:
  "getitem b k = Inr bk \<Longrightarrow> dict_compare (JMap m) bk (path @ [k]) = Inr sub \<Longrightarrow> r \<in> set sub \<Longrightarrow>
   reported_below ((k, JMap m) # items) b path r"
  unfolding reported_below_def by (auto simp del: dict_compare.simps)

lemma items_loop_sound:
  "items_loop items b path result = Inr res \<Longrightarrow> r \<in> set res \<Longrightarrow>
     r \<in> set result \<or> reported_here items b path r \<or> reported_below items b path r"
proof (induction items arbitrary: result)
  case Nil
  then show ?case by simp
next
  case (Cons kv items)
  obtain k v where kv: "kv = (k, v)" by (cases kv)
  from Cons.prems(1)[unfolded kv] show ?case
  proof (cases rule: items_loop_step_cases)
    case skip
    from Cons.IH[OF skip Cons.prems(2)] show ?thesis
      using reported_here_Cons reported_below_Cons by blast
  next
    case report
    from Cons.IH[OF report(1) Cons.prems(2)]
    have "r \<in> set result \<or> r = join_dot (path @ [k]) \<or>
          reported_here items b path r \<or> reported_below items b path r"
      by auto
    then show ?thesis
      using reported_here_head[OF report(2)] reported_here_Cons reported_below_Cons
      unfolding kv by blast
  next
    case (recurse m bk sub)
    from Cons.IH[OF recurse(4) Cons.prems(2)]
    have "r \<in> set result \<or> r \<in> set sub \<or>
          reported_here items b path r \<or> reported_below items b path r"
      by auto
    then show ?thesis
      using reported_below_head[OF recurse(2,3)] reported_here_Cons reported_below_Cons
      unfolding kv recurse(1) by blast
  qed
qed

lemma dict_compare_sound:
  assumes "dict_compare (JMap am) b path = Inr res" and "r \<in> set res"
  shows "reported_here am b path r \<or> reported_below am b path r \<or>
     (\<exists>bm k. b = JMap bm \<and> k \<in> set (map fst bm) \<and> k \<notin> set (map fst am) \<and>
            r = join_dot (path @ [k]))"
proof -
  from assms(1) obtain bm where b: "b = JMap bm" using dict_compare_needs_map by blast
  let ?added = "filter (\<lambda>k. k \<notin> set (map fst am)) (map fst bm)"
  from assms(1) have "\<exists>result. items_loop am b path [] = Inr result \<and>
      result @ map (\<lambda>k. join_dot (path @ [k])) ?added = res"
    unfolding b by (simp split: sum.splits)
  then obtain result where l: "items_loop am b path [] = Inr result"
    and r: "res = result @ map (\<lambda>k. join_dot (path @ [k])) ?added" by blast
  from assms(2) r consider "r \<in> set result"
    | "r \<in> set (map (\<lambda>k. join_dot (path @ [k])) ?added)" by auto
  then show ?thesis
  proof cases
    case 1
    from items_loop_sound[OF l 1] show ?thesis by auto
  next
    case 2
    then obtain k where "k \<in> set ?added" and "r = join_dot (path @ [k])" by auto
    then show ?thesis using b by auto
  qed
qed

lemma reported_below_path:
  "dict_compare a b path = Inr res \<Longrightarrow> r \<in> set res \<Longrightarrow>
   \<exists>ks. ks \<noteq> [] \<and> r = join_dot (path @ ks)"
proof (induction a arbitrary: b path res r)
  case (Scalar x)
  then show ?case by simp
next
  case (JList xs)
  then show ?case by simp
next
  case (JMap am)
  from dict_compare_sound[OF JMap.prems] consider
      (here) k where "r = join_dot (path @ [k])"
    | (below) k m bk sub where "(k, JMap m) \<in> set am"
        and "dict_compare (JMap m) bk (path @ [k]) = Inr sub" and "r \<in> set sub"
    unfolding reported_here_def reported_below_def by blast
  then show ?case
  proof cases
    case here
    then show ?thesis by blast
  next
    case below
    have "JMap m \<in> Basic_BNFs.snds (k, JMap m)" by simp
    from JMap.IH[OF below(1) this below(2,3)]
    obtain ks where "ks \<noteq> []" and "r = join_dot ((path @ [k]) @ ks)" by blast
    then have "k # ks \<noteq> [] \<and> r = join_dot (path @ (k # ks))" by simp
    then show ?thesis by blast
  qed
qed

lemma join_dot_has_dot: "ks \<noteq> [] \<Longrightarrow> dot \<in> set (join_dot (k # ks))"
  by (simp add: join_dot_Cons)

lemma dot_free_key: "dot_free (JMap m) \<Longrightarrow> (k, v) \<in> set m \<Longrightarrow> dot \<notin> set k \<and> dot_free v"
  by auto

lemma distinct_keys_unique:
  "distinct_keys (JMap m) \<Longrightarrow> (k, v) \<in> set m \<Longrightarrow> map_of m k = Some v \<and> distinct_keys v"
  by auto

lemma in_keys: "map_of m k = Some v \<Longrightarrow> k \<in> set (map fst m)"
  by (force dest: map_of_SomeD)

lemma shared_path_not_reported:
  assumes "dict_compare a b path = Inr res"
    and "distinct_keys a" and "dot_free a" and "dot_free b"
    and "ks \<noteq> []"
    and "descend a ks = Some v" and "descend b ks = Some w"
    and "veto (join_dot (path @ ks))"
  shows "join_dot (path @ ks) \<notin> set res"
  using assms
proof (induction ks arbitrary: a b path res)
  case Nil
  then show ?case by simp
next
  case (Cons k0 ks1)
  from Cons.prems(6) obtain am a1 where a: "a = JMap am" and a1: "map_of am k0 = Some a1"
    and da: "descend a1 ks1 = Some v"
    using descend_Cons_map by blast
  from Cons.prems(7) obtain bm b1 where b: "b = JMap bm" and b1: "map_of bm k0 = Some b1"
    and db: "descend b1 ks1 = Some w"
    using descend_Cons_map by blast
  have ia: "(k0, a1) \<in> set am" using a1 by (rule map_of_SomeD)
  have ib: "(k0, b1) \<in> set bm" using b1 by (rule map_of_SomeD)
  have k0a: "k0 \<in> set (map fst am)" using a1 by (rule in_keys)
  have k0b: "k0 \<in> set (map fst bm)" using b1 by (rule in_keys)
  have da': "distinct_keys (JMap am)" using Cons.prems(2) a by simp
  have pa: "dot_free (JMap am)" using Cons.prems(3) a by simp
  have pb: "dot_free (JMap bm)" using Cons.prems(4) b by simp
  have k0dot: "dot \<notin> set k0" using dot_free_key[OF pa ia] by simp
  let ?r = "join_dot (path @ k0 # ks1)"
  show ?case
  proof
    assume r: "?r \<in> set res"
    from dict_compare_sound[OF Cons.prems(1)[unfolded a] r]
    consider
        (here) k v' where "(k, v') \<in> set am" and "?r = join_dot (path @ [k])"
          and "contains b k = Inr False \<or> \<not> veto ?r"
      | (below) k m bk sub where "(k, JMap m) \<in> set am" and "getitem b k = Inr bk"
          and "dict_compare (JMap m) bk (path @ [k]) = Inr sub" and "?r \<in> set sub"
      | (added) k where "k \<in> set (map fst bm)" and "k \<notin> set (map fst am)"
          and "?r = join_dot (path @ [k])"
      unfolding reported_here_def reported_below_def b by blast
    then show False
    proof cases
      case here
      from here(2) have e: "join_dot (k0 # ks1) = k"
        using join_dot_cancel[of "k0 # ks1" "[k]" path] by simp
      show False
      proof (cases "ks1 = []")
        case True
        with e have "k = k0" by simp
        with here(3) k0b b Cons.prems(8) show False by simp
      next
        case False
        from join_dot_has_dot[OF False, of k0] e have "dot \<in> set k" by simp
        with dot_free_key[OF pa here(1)] show False by simp
      qed
    next
      case below
      from reported_below_path[OF below(3,4)]
      obtain ks2 where k2: "ks2 \<noteq> []" and r2: "?r = join_dot ((path @ [k]) @ ks2)" by blast
      from r2 have e: "join_dot (k0 # ks1) = join_dot (k # ks2)"
        using join_dot_cancel[of "k0 # ks1" "k # ks2" path] by simp
      have kdot: "dot \<notin> set k" using dot_free_key[OF pa below(1)] by simp
      show False
      proof (cases "ks1 = []")
        case True
        with e have "k0 = join_dot (k # ks2)" by simp
        with join_dot_has_dot[OF k2, of k] k0dot show False by simp
      next
        case False
        from e have "k0 @ dot # join_dot ks1 = k @ dot # join_dot ks2"
          by (simp add: join_dot_Cons False k2)
        from dot_split_unique[OF k0dot kdot this] have kk: "k = k0" by simp
        from distinct_keys_unique[OF da' below(1)] a1 kk have am1: "a1 = JMap m" by simp
        from below(2) b b1 kk have bk: "bk = b1" by simp
        have d: "dict_compare a1 b1 (path @ [k0]) = Inr sub"
          using below(3) am1 bk kk by simp
        have p0: "distinct_keys a1" using distinct_keys_unique[OF da' ia] by simp
        have p1: "dot_free a1" using dot_free_key[OF pa ia] by simp
        have p2: "dot_free b1" using dot_free_key[OF pb ib] by simp
        have v: "veto (join_dot ((path @ [k0]) @ ks1))" using Cons.prems(8) by simp
        from Cons.IH[OF d p0 p1 p2 False da db v] below(4) show False by simp
      qed
    next
      case added
      from added(3) have e: "join_dot (k0 # ks1) = k"
        using join_dot_cancel[of "k0 # ks1" "[k]" path] by simp
      show False
      proof (cases "ks1 = []")
        case True
        with e added(2) k0a show False by simp
      next
        case False
        from join_dot_has_dot[OF False, of k0] e have kd: "dot \<in> set k" by simp
        from added(1) obtain w' where "(k, w') \<in> set bm" by auto
        from dot_free_key[OF pb this] kd show False by simp
      qed
    qed
  qed
qed

subsection \<open>The pattern for per-channel telemetry\<close>

lemma rx_star_skip:
  "list_all c p \<Longrightarrow> rx_match r s \<Longrightarrow> rx_match (Star c # r) (p @ s)"
proof (induction p)
  case Nil
  then show ?case by (cases s) simp_all
next
  case (Cons x p)
  then show ?case by simp
qed

lemma rx_lit: "rx_match r s \<Longrightarrow> rx_match (Lit l # r) (l @ s)"
  by simp

lemma rx_cls: "c x \<Longrightarrow> rx_match r s \<Longrightarrow> rx_match (Cls c # r) (x # s)"
  by simp

lemma rx_alt:
  assumes "l \<in> set ls" and "rx_match r s"
  shows "rx_match (Alt ls # r) (l @ s)"
proof -
  have "take (length l) (l @ s) = l \<and> rx_match r (drop (length l) (l @ s))"
    using assms(2) by simp
  with assms(1)
  have "\<exists>l' \<in> set ls. take (length l') (l @ s) = l' \<and> rx_match r (drop (length l') (l @ s))"
    by blast
  then show ?thesis by (simp only: rx_match.simps list_ex_iff)
qed

lemma rx_telemetry_tail:
  assumes "seg \<in> set [''volts'', ''currents'', ''counters'', ''temps'', ''fans'']"
    and "leaf \<noteq> []" and "dot \<notin> set leaf"
  shows "rx_match [Lit ''.'', Alt [''volts'', ''currents'', ''counters'', ''temps'', ''fans''],
                   Lit ''.'', Cls not_dot, Star not_dot, Eol] (dot # seg @ dot # leaf)"
proof -
  from assms(2) obtain x xs where leaf: "leaf = x # xs" by (cases leaf) auto
  from assms(3) leaf have x: "not_dot x" and xs: "list_all not_dot xs"
    by (auto simp: not_dot_def list_all_iff)
  have "rx_match [Eol] []" by simp
  from rx_star_skip[OF xs this] have "rx_match [Star not_dot, Eol] xs" by simp
  from rx_cls[of not_dot x, OF x this] have "rx_match [Cls not_dot, Star not_dot, Eol] leaf"
    unfolding leaf .
  from rx_lit[OF this, of "''.''"]
  have "rx_match [Lit ''.'', Cls not_dot, Star not_dot, Eol] (''.'' @ leaf)" .
  from rx_alt[OF assms(1) this]
  have "rx_match [Alt [''volts'', ''currents'', ''counters'', ''temps'', ''fans''],
                  Lit ''.'', Cls not_dot, Star not_dot, Eol] (seg @ ''.'' @ leaf)" .
  from rx_lit[OF this, of "''.''"]
  have "rx_match [Lit ''.'', Alt [''volts'', ''currents'', ''counters'', ''temps'', ''fans''],
                  Lit ''.'', Cls not_dot, Star not_dot, Eol] (''.'' @ seg @ ''.'' @ leaf)" .
  moreover have "''.'' @ seg @ ''.'' @ leaf = dot # seg @ dot # leaf"
    by (simp add: dot_def)
  ultimately show ?thesis by (simp only:)
qed

lemma veto_telemetry:
  assumes "pre \<noteq> []" and "newline \<notin> set (join_dot pre)"
    and "seg \<in> set [''volts'', ''currents'', ''counters'', ''temps'', ''fans'']"
    and "leaf \<noteq> []" and "dot \<notin> set leaf"
  shows "veto (join_dot (pre @ [seg, leaf]))"
proof -
  have j: "join_dot (pre @ [seg, leaf]) = join_dot pre @ (dot # seg @ dot # leaf)"
    using assms(1) by (simp add: join_dot_append)
  have "list_all any_char (join_dot pre)"
    using assms(2) by (auto simp: list_all_iff any_char_def)
  from rx_star_skip[OF this rx_telemetry_tail[OF assms(3,4,5)]]
  have "rx_match [Star any_char, Lit ''.'',
                  Alt [''volts'', ''currents'', ''counters'', ''temps'', ''fans''],
                  Lit ''.'', Cls not_dot, Star not_dot, Eol] (join_dot (pre @ [seg, leaf]))"
    unfolding j .
  then show ?thesis
    unfolding veto_def VETO_def by (simp del: rx_match.simps)
qed

subsection \<open>Vetoed paths\<close>

text \<open>
  A key that both snapshots have, whose value in the older one is not a dict and whose
  path a pattern vetoes, is passed over: the loop goes on with the result unchanged.
\<close>

lemma vetoed_item_skipped:
  assumes "contains b k = Inr True" and "\<nexists>m. v = JMap m"
    and "veto (join_dot (path @ [k]))"
  shows "items_loop ((k, v) # rest) b path result = items_loop rest b path result"
  using assms by (cases v) simp_all

text \<open>
  Claim C3, amended. Let no dict key of the two snapshots contain a dot, and let the keys
  \<open>ks\<close> lead to a value in both. If a veto pattern matches the dotted path of \<open>ks\<close>,
  then no result of \<open>dict_compare\<close> contains that path, whatever the two values are.
  (The older snapshot has no key twice in a dict, as every Python \<open>dict\<close>.)
  In particular this is so for every path of three segments or more whose last segment is
  not empty, whose segment before the last is one of \<open>volts\<close>, \<open>currents\<close>,
  \<open>counters\<close>, \<open>temps\<close> and \<open>fans\<close>, and whose earlier segments hold no line
  break: the pattern for per-channel telemetry matches it.
\<close>

theorem vetoed_path_not_reported:
  assumes "dict_compare a b path = Inr res"
    and "distinct_keys a" and "dot_free a" and "dot_free b"
    and "ks \<noteq> []"
    and "descend a ks = Some v" and "descend b ks = Some w"
    and "veto (join_dot (path @ ks)) \<or>
         (\<exists>pre seg leaf. path @ ks = pre @ [seg, leaf] \<and> pre \<noteq> [] \<and>
            newline \<notin> set (join_dot pre) \<and>
            seg \<in> set [''volts'', ''currents'', ''counters'', ''temps'', ''fans''] \<and>
            leaf \<noteq> [] \<and> dot \<notin> set leaf)"
  shows "join_dot (path @ ks) \<notin> set res"
proof -
  from assms(8) have "veto (join_dot (path @ ks))"
  proof
    assume "veto (join_dot (path @ ks))"
    then show ?thesis .
  next
    assume "\<exists>pre seg leaf. path @ ks = pre @ [seg, leaf] \<and> pre \<noteq> [] \<and>
            newline \<notin> set (join_dot pre) \<and>
            seg \<in> set [''volts'', ''currents'', ''counters'', ''temps'', ''fans''] \<and>
            leaf \<noteq> [] \<and> dot \<notin> set leaf"
    then obtain pre seg leaf where e: "path @ ks = pre @ [seg, leaf]" and "pre \<noteq> []"
      and "newline \<notin> set (join_dot pre)"
      and "seg \<in> set [''volts'', ''currents'', ''counters'', ''temps'', ''fans'']"
      and "leaf \<noteq> []" and "dot \<notin> set leaf"
      by blast
    from veto_telemetry[OF this(2-)] show ?thesis unfolding e .
  qed
  from shared_path_not_reported[OF assms(1-7) this] show ?thesis .
qed

theorem vetoed_path_not_reported_witness:
  "dict_compare
     (JMap [(''sys'', JMap [(''temps'', JMap [(''fan1'', Scalar (SInt 30))])]),
            (''name'', Scalar (SStr ''X''))])
     (JMap [(''sys'', JMap [(''temps'', JMap [(''fan1'', Scalar (SInt 45))])]),
            (''name'', Scalar (SStr ''Y''))]) []
   = Inr [''name''] \<and>
   veto (join_dot [''sys'', ''temps'', ''fan1'']) \<and>
   join_dot [''sys'', ''temps'', ''fan1''] \<notin> set [''name'']"
proof -
  let ?a = "JMap [(''sys'', JMap [(''temps'', JMap [(''fan1'', Scalar (SInt 30))])]),
                  (''name'', Scalar (SStr ''X''))]"
  let ?b = "JMap [(''sys'', JMap [(''temps'', JMap [(''fan1'', Scalar (SInt 45))])]),
                  (''name'', Scalar (SStr ''Y''))]"
  let ?ks = "[''sys'', ''temps'', ''fan1'']"
  have h1: "dict_compare ?a ?b [] = Inr [''name'']" by code_simp
  have h2: "distinct_keys ?a" by simp
  have h2': "dot_free ?a" by (simp add: dot_def)
  have h3: "dot_free ?b" by (simp add: dot_def)
  have h4: "?ks \<noteq> []" by simp
  have h5: "descend ?a ?ks = Some (Scalar (SInt 30))" by simp
  have h6: "descend ?b ?ks = Some (Scalar (SInt 45))" by simp
  have h7: "veto (join_dot ([] @ ?ks))" by code_simp
  from vetoed_path_not_reported[OF h1 h2 h2' h3 h4 h5 h6 disjI1[OF h7]]
  have "join_dot ?ks \<notin> set [''name'']" by (simp del: join_dot.simps)
  with h1 h7 show ?thesis by (simp del: join_dot.simps)
qed

text \<open>
  The pattern for per-channel telemetry asks for a dot before the name. The path
  \<open>temps.fan1\<close>, of two segments, is matched by none of the eight patterns, and its
  change is reported.
\<close>

theorem two_segment_path_reported:
  "dict_compare (JMap [(''temps'', JMap [(''fan1'', Scalar (SInt 30))])])
                (JMap [(''temps'', JMap [(''fan1'', Scalar (SInt 45))])]) []
   = Inr [''temps.fan1''] \<and> \<not> veto ''temps.fan1''"
  by code_simp

text \<open>
  Why the keys must hold no dot: a key with dots in it, in either snapshot, is reported
  under the same string as the vetoed leaf \<open>f\<close> under \<open>s\<close> and \<open>temps\<close>, which both
  snapshots have.
\<close>

lemma dotted_key_reported_as_vetoed_path:
  "dict_compare (JMap [(''s'', JMap [(''temps'', JMap [(''f'', Scalar (SInt 1))])])])
                (JMap [(''s'', JMap [(''temps'', JMap [(''f'', Scalar (SInt 2))])]),
                       (''s.temps.f'', Scalar (SInt 0))]) [] = Inr [''s.temps.f''] \<and>
   dict_compare (JMap [(''s'', JMap [(''temps'', JMap [(''f'', Scalar (SInt 1))])]),
                       (''s.temps.f'', Scalar (SInt 0))])
                (JMap [(''s'', JMap [(''temps'', JMap [(''f'', Scalar (SInt 2))])])]) []
     = Inr [''s.temps.f''] \<and>
   veto (join_dot [''s'', ''temps'', ''f'']) \<and> join_dot [''s'', ''temps'', ''f''] = ''s.temps.f''"
  by code_simp

text \<open>
  Why the pattern for per-channel telemetry is said to match only after segments without a
  line break and before a last segment that is not empty: the class \<open>.\<close> does not match
  a line break and \<open>[^.]+\<close> needs a character, so these two changes are reported.
\<close>

lemma telemetry_pattern_limits:
  "dict_compare
     (JMap [(''a'' @ [newline] @ ''b'', JMap [(''temps'', JMap [(''fan1'', Scalar (SInt 1))])])])
     (JMap [(''a'' @ [newline] @ ''b'', JMap [(''temps'', JMap [(''fan1'', Scalar (SInt 2))])])]) []
     = Inr [''a'' @ [newline] @ ''b.temps.fan1''] \<and>
   dict_compare (JMap [(''sys'', JMap [(''temps'', JMap [([], Scalar (SInt 1))])])])
                (JMap [(''sys'', JMap [(''temps'', JMap [([], Scalar (SInt 2))])])]) []
     = Inr [''sys.temps.'']"
  by code_simp

subsection \<open>Lists\<close>

text \<open>
  A key with a list value that both snapshots have and no pattern vetoes never adds a path
  to the result: the loop either raises or goes on with the result unchanged.
\<close>

lemma list_item_never_reported:
  assumes "items_loop ((k, JList xs) # rest) b path result = Inr res"
    and "contains b k = Inr True"
  shows "items_loop rest b path result = Inr res"
  using assms by (simp split: sum.splits if_splits)

text \<open>
  Two identical snapshots in which every list and every \<open>NaN\<close> below dicts sits at a
  vetoed path compare to the empty result: what keeps identical snapshots from an empty
  result is the list branch, and \<open>NaN\<close>, which is not equal to itself.
\<close>

lemma scalar_eq_refl: "x \<noteq> SFloat NaN \<Longrightarrow> scalar_eq x x"
proof (cases x)
  case (SFloat f)
  assume "x \<noteq> SFloat NaN"
  with SFloat show ?thesis by (cases f) simp_all
qed simp_all

lemma items_loop_identical:
  assumes "distinct (map fst am)" and "set items \<subseteq> set am"
    and "\<And>k m. (k, JMap m) \<in> set items \<Longrightarrow> dict_compare (JMap m) (JMap m) (path @ [k]) = Inr []"
    and "\<And>k v. (k, v) \<in> set items \<Longrightarrow> (\<exists>xs. v = JList xs) \<or> v = Scalar (SFloat NaN) \<Longrightarrow>
               veto (join_dot (path @ [k]))"
  shows "items_loop items (JMap am) path result = Inr result"
  using assms(2-)
proof (induction items arbitrary: result)
  case Nil
  show ?case by simp
next
  case (Cons kv items)
  obtain k v where kv: "kv = (k, v)" by (cases kv)
  from Cons.prems(1) have i: "(k, v) \<in> set am" by (simp add: kv)
  then have c: "contains (JMap am) k = Inr True" by force
  from i assms(1) have g: "getitem (JMap am) k = Inr v" by simp
  have r: "items_loop items (JMap am) path result = Inr result" for result
  proof (rule Cons.IH)
    show "set items \<subseteq> set am" using Cons.prems(1) by simp
    show "dict_compare (JMap m) (JMap m) (path @ [k]) = Inr []"
      if "(k, JMap m) \<in> set items" for k m
      using Cons.prems(2)[of k m] that by (simp del: dict_compare.simps)
    show "veto (join_dot (path @ [k]))"
      if "(k, v) \<in> set items" and "(\<exists>xs. v = JList xs) \<or> v = Scalar (SFloat NaN)" for k v
      using Cons.prems(3)[of k v] that by simp
  qed
  have vt: "veto (join_dot (path @ [k]))" if "(\<exists>xs. v = JList xs) \<or> v = Scalar (SFloat NaN)"
    using Cons.prems(3)[of k v] that by (simp add: kv)
  show ?case
  proof (cases v)
    case (Scalar x)
    show ?thesis
    proof (cases "x = SFloat NaN")
      case True
      with Scalar vt have "veto (join_dot (path @ [k]))" by simp
      then show ?thesis using c r Scalar by (simp add: kv)
    next
      case False
      then show ?thesis using c g r Scalar by (simp add: kv scalar_eq_refl)
    qed
  next
    case (JList xs)
    with vt have "veto (join_dot (path @ [k]))" by simp
    then show ?thesis using c r JList by (simp add: kv)
  next
    case (JMap m)
    with Cons.prems(2)[of k m] have "dict_compare (JMap m) (JMap m) (path @ [k]) = Inr []"
      by (simp add: kv)
    then show ?thesis using c g r JMap by (simp add: kv del: dict_compare.simps)
  qed
qed

lemma identical_snapshots_empty:
  assumes "distinct_keys (JMap am)"
    and "\<And>ks v. descend (JMap am) ks = Some v \<Longrightarrow>
                (\<exists>xs. v = JList xs) \<or> v = Scalar (SFloat NaN) \<Longrightarrow> veto (join_dot (path @ ks))"
  shows "dict_compare (JMap am) (JMap am) path = Inr []"
  using assms
proof (induction "JMap am" arbitrary: am path)
  case (JMap am)
  have d: "distinct (map fst am)" using JMap.prems(1) by simp
  have sub: "dict_compare (JMap m) (JMap m) (path @ [k]) = Inr []"
    if i: "(k, JMap m) \<in> set am" for k m
  proof -
    have s: "JMap m \<in> Basic_BNFs.snds (k, JMap m)" by simp
    have dk: "distinct_keys (JMap m)" using JMap.prems(1) i by force
    have mo: "map_of am k = Some (JMap m)" using d i by simp
    have v: "veto (join_dot ((path @ [k]) @ ks))"
      if "descend (JMap m) ks = Some v" and "(\<exists>xs. v = JList xs) \<or> v = Scalar (SFloat NaN)"
      for ks v
      using JMap.prems(2)[of "k # ks" v] that mo by simp
    from JMap.hyps[OF i s dk v] show ?thesis .
  qed
  have lv: "veto (join_dot (path @ [k]))"
    if i: "(k, v) \<in> set am" and o: "(\<exists>xs. v = JList xs) \<or> v = Scalar (SFloat NaN)" for k v
  proof -
    have "map_of am k = Some v" using d i by simp
    then show ?thesis using JMap.prems(2)[of "[k]" v] o by simp
  qed
  have "items_loop am (JMap am) path [] = Inr []"
  proof (rule items_loop_identical[OF d subset_refl])
    fix k m
    assume "(k, JMap m) \<in> set am"
    then show "dict_compare (JMap m) (JMap m) (path @ [k]) = Inr []" by (rule sub)
  next
    fix k v
    assume "(k, v) \<in> set am" and "(\<exists>xs. v = JList xs) \<or> v = Scalar (SFloat NaN)"
    then show "veto (join_dot (path @ [k]))" by (rule lv)
  qed
  then show ?case by simp
qed

text \<open>
  A \<open>NaN\<close> under the key \<open>x\<close> of two identical snapshots is reported as a change.
\<close>

lemma identical_nan_reported:
  "dict_compare (JMap [(''x'', Scalar (SFloat NaN))]) (JMap [(''x'', Scalar (SFloat NaN))]) []
     = Inr [''x'']"
  by code_simp

text \<open>
  Claim C1, at a failing input. Two identical snapshots with an empty list under the key
  \<open>x\<close>: the two set differences are empty, the second clause of the condition holds,
  and the append raises \<open>AttributeError\<close>.
\<close>

theorem identical_snapshots_with_list_raise:
  "dict_compare (JMap [(''x'', JList [])]) (JMap [(''x'', JList [])]) [] = Inl AttributeError"
  by code_simp

text \<open>
  Claim C2, at failing inputs. With \<open>[1]\<close> against \<open>[1, 2]\<close> the symmetric
  difference is not empty and nothing is reported; with \<open>[1]\<close> against \<open>[2]\<close>, and
  with \<open>[1]\<close> against \<open>[1]\<close>, the comparison raises \<open>AttributeError\<close>.
\<close>

theorem list_change_not_reported:
  "dict_compare (JMap [(''x'', JList [Scalar (SInt 1)])])
                (JMap [(''x'', JList [Scalar (SInt 1), Scalar (SInt 2)])]) [] = Inr [] \<and>
   dict_compare (JMap [(''x'', JList [Scalar (SInt 1)])])
                (JMap [(''x'', JList [Scalar (SInt 2)])]) [] = Inl AttributeError \<and>
   dict_compare (JMap [(''x'', JList [Scalar (SInt 1)])])
                (JMap [(''x'', JList [Scalar (SInt 1)])]) [] = Inl AttributeError"
  by code_simp

subsection \<open>A dict against a value that is not a dict\<close>

text \<open>
  The recursive call is made whenever the older value is a dict; when the newer value is
  not a dict, the call raises.
\<close>

lemma map_against_other_raises:
  assumes "\<nexists>bm. b = JMap bm"
  shows "\<exists>e. dict_compare (JMap am) b path = Inl e"
proof (cases "dict_compare (JMap am) b path")
  case (Inl e)
  then show ?thesis by blast
next
  case (Inr res)
  from dict_compare_needs_map[OF this] assms show ?thesis by blast
qed

text \<open>
  Claim C5, at failing inputs. The key \<open>k\<close> holds a dict in the older snapshot and the
  number 5, or a list, in the newer one: the recursive call raises \<open>TypeError\<close>, or
  \<open>AttributeError\<close>.
\<close>

theorem map_against_scalar_raises:
  "dict_compare (JMap [(''k'', JMap [(''x'', Scalar (SInt 1))])])
                (JMap [(''k'', Scalar (SInt 5))]) [] = Inl TypeError \<and>
   dict_compare (JMap [(''k'', JMap [(''x'', Scalar (SInt 1))])])
                (JMap [(''k'', JList [Scalar (SInt 5)])]) [] = Inl AttributeError"
  by code_simp

section \<open>The sample window\<close>

lemma last_n_last_n_append: "last_n n (last_n n xs @ ys) = last_n n (xs @ ys)"
proof (cases "length xs \<le> n")
  case True
  then show ?thesis by (simp add: last_n_def)
next
  case False
  then have "length xs + length ys - n = (length xs - n) + length ys"
    and "length ys + length xs - n = (length xs - n) + length ys" by simp_all
  with False show ?thesis by (simp add: last_n_def)
qed

lemma last_n_idem: "length xs \<le> n \<Longrightarrow> last_n n xs = xs"
  by (simp add: last_n_def)

lemma length_last_n: "length (last_n n xs) \<le> n"
  by (simp add: last_n_def)

lemma sample_all_data:
  "sample_all inputs p0 = Inr p \<Longrightarrow> length (data p0) \<le> max_samples \<Longrightarrow>
   data p = last_n max_samples (data p0 @ appended inputs)"
proof (induction inputs arbitrary: p0)
  case Nil
  then show ?case by (simp add: last_n_idem)
next
  case (Cons a inputs)
  obtain ts r where a: "a = (ts, r)" by (cases a)
  from Cons.prems(1) obtain p1
    where s: "snd (sample ts r p0) = Inr p1" and r: "sample_all inputs p1 = Inr p"
    by (auto simp: a split: sum.splits)
  have d: "data p1 = last_n max_samples (data p0 @ appended [(ts, r)])"
    using s Cons.prems(2)
    by (auto simp: sample_def last_n_idem
             split: get_result.splits exn.splits if_splits option.splits)
  have "length (data p1) \<le> max_samples" by (simp add: d length_last_n)
  from Cons.IH[OF r this] have "data p = last_n max_samples (data p1 @ appended inputs)" .
  also have "\<dots> = last_n max_samples ((data p0 @ appended [(ts, r)]) @ appended inputs)"
    unfolding d by (rule last_n_last_n_append)
  finally have "data p = last_n max_samples (data p0 @ appended [(ts, r)] @ appended inputs)"
    by simp
  moreover have "appended [(ts, r)] @ appended inputs = appended ((ts, r) # inputs)"
    by (cases r) (auto split: option.splits)
  ultimately show ?case by (simp add: a)
qed

lemma constructed_history_empty:
  "Processor_init get h = (reqs, logs, Inr p) \<Longrightarrow> data p = []"
  by (auto simp: Processor_init_def init_identity_def Let_def
           split: get_result.splits if_splits sum.splits)

text \<open>
  Claim C6. Whatever the outcomes of a run of \<open>sample\<close> calls on a processor whose
  history holds at most three entries (a new processor holds none), the history holds at
  most three entries afterwards: it is the last three of the old entries followed by the
  appended samples, in their order. After five appends on a new processor these are the
  third, fourth and fifth sample.
\<close>

theorem sample_window:
  assumes "length (data p0) \<le> max_samples" and "sample_all inputs p0 = Inr p"
  shows "length (data p) \<le> 3 \<and>
         data p = last_n 3 (data p0 @ appended inputs) \<and>
         (\<forall>s1 s2 s3 s4 s5. data p0 = [] \<and> appended inputs = [s1, s2, s3, s4, s5]
                              \<longrightarrow> data p = [s3, s4, s5])"
proof -
  have d: "data p = last_n 3 (data p0 @ appended inputs)"
    using sample_all_data[OF assms(2) assms(1)] by (simp add: max_samples_def)
  have "length (data p) \<le> 3" unfolding d by (rule length_last_n)
  moreover have "\<forall>s1 s2 s3 s4 s5. data p0 = [] \<and> appended inputs = [s1, s2, s3, s4, s5]
                              \<longrightarrow> data p = [s3, s4, s5]"
    unfolding d by (auto simp: last_n_def)
  ultimately show ?thesis using d by blast
qed

theorem sample_window_witness:
  "length (data example_processor) \<le> max_samples \<and>
   sample_all [(1, answer 200 (JMap [(''n'', Scalar (SInt 1))])),
               (2, answer 200 (JMap [(''n'', Scalar (SInt 2))])),
               (3, Raised (ConnectionError ''refused'')),
               (4, answer 200 (JMap [(''n'', Scalar (SInt 3))])),
               (5, answer 503 (JMap [])),
               (6, answer 200 (JMap [(''n'', Scalar (SInt 4))])),
               (7, answer 204 (JMap [(''n'', Scalar (SInt 5))]))] example_processor
     = Inr (example_processor
              \<lparr>data := [(4, JMap [(''n'', Scalar (SInt 3))]),
                        (6, JMap [(''n'', Scalar (SInt 4))]),
                        (7, JMap [(''n'', Scalar (SInt 5))])]\<rparr>) \<and>
   length (data (example_processor
              \<lparr>data := [(4, JMap [(''n'', Scalar (SInt 3))]),
                        (6, JMap [(''n'', Scalar (SInt 4))]),
                        (7, JMap [(''n'', Scalar (SInt 5))])]\<rparr>)) \<le> 3"
proof -
  let ?inputs = "[(1, answer 200 (JMap [(''n'', Scalar (SInt 1))])),
               (2, answer 200 (JMap [(''n'', Scalar (SInt 2))])),
               (3, Raised (ConnectionError ''refused'')),
               (4, answer 200 (JMap [(''n'', Scalar (SInt 3))])),
               (5, answer 503 (JMap [])),
               (6, answer 200 (JMap [(''n'', Scalar (SInt 4))])),
               (7, answer 204 (JMap [(''n'', Scalar (SInt 5))]))]"
  let ?p = "example_processor
              \<lparr>data := [(4, JMap [(''n'', Scalar (SInt 3))]),
                        (6, JMap [(''n'', Scalar (SInt 4))]),
                        (7, JMap [(''n'', Scalar (SInt 5))])]\<rparr>"
  have h1: "length (data example_processor) \<le> max_samples"
    by (simp add: example_processor_def)
  have h2: "sample_all ?inputs example_processor = Inr ?p"
    by (simp add: sample_def answer_def max_samples_def last_n_def example_processor_def)
  from sample_window[OF h1 h2] have "length (data ?p) \<le> 3" by blast
  with h1 h2 show ?thesis by blast
qed

section \<open>Transport failures and the cold start\<close>

text \<open>
  When \<open>requests.get\<close> raises a \<open>ConnectionError\<close>, \<open>sample\<close> logs one warning,
  returns normally and the processor, its history included, is unchanged; the turn of the
  polling loop then ends as \<open>compare\<close> on the unchanged processor ends.
\<close>

lemma sample_connection_error:
  "sample ts (Raised (ConnectionError msg)) p =
     ([(LOG, WARNING, ''%s %s'', [AStr (repr p), AExn (ConnectionError msg)])], Inr p)
   \<and> snd (poll ts (Raised (ConnectionError msg)) p) =
     (case snd (Processor_compare p) of Inl e \<Rightarrow> Inl e | Inr u \<Rightarrow> Inr p)"
  by (auto simp: sample_def poll_def split: prod.splits sum.splits)

text \<open>
  Claim C8, at failing inputs. A peer that stops answering once connected
  (\<open>ReadTimeout\<close>) and a connection broken while the body is read
  (\<open>ChunkedEncodingError\<close>) are transport failures that the \<open>except\<close> clause of
  \<open>sample\<close> does not name: no warning is logged, the exception leaves \<open>sample\<close>, and
  the turn of the polling loop raises it.
\<close>

theorem uncaught_transport_failures:
  "sample ts (Raised (ReadTimeout msg)) p = ([], Inl (ReadTimeout msg)) \<and>
   sample ts (Raised (ChunkedEncodingError msg)) p = ([], Inl (ChunkedEncodingError msg)) \<and>
   poll ts (Raised (ReadTimeout msg)) p = ([], Inl (ReadTimeout msg)) \<and>
   poll ts (Raised (ChunkedEncodingError msg)) p = ([], Inl (ChunkedEncodingError msg))"
  by (simp add: sample_def poll_def)

text \<open>
  Claim C9. With fewer than two samples in the history, \<open>compare\<close> logs nothing, reports
  nothing and returns normally.
\<close>

theorem compare_noop: "length (data p) < 2 \<Longrightarrow> Processor_compare p = ([], Inr ())"
  by (cases "data p"; cases "tl (data p)") (auto simp: Processor_compare_def last_n_def)

theorem compare_noop_witness:
  "length (data (example_processor\<lparr>data := [(1, JMap [])]\<rparr>)) < 2 \<and>
   Processor_compare (example_processor\<lparr>data := [(1, JMap [])]\<rparr>) = ([], Inr ())"
proof -
  have h: "length (data (example_processor\<lparr>data := [(1, JMap [])]\<rparr>)) < 2" by simp
  from compare_noop[OF h] h show ?thesis by simp
qed

section \<open>The display identifier\<close>

lemma split_dot_nonempty: "split_dot s \<noteq> []"
  by (induction s) (auto split: list.splits)

lemma split_dot_no_dot: "dot \<notin> set s \<Longrightarrow> split_dot s = [s]"
  by (induction s) auto

lemma split_dot_with_dot: "dot \<in> set s \<Longrightarrow> tl (split_dot s) \<noteq> []"
  by (induction s) (auto simp: split_dot_nonempty split: list.splits)

lemma final_segment_Cons:
  "final_segment (c # cs) =
     (if dot \<in> set cs then final_segment cs else if c = dot then cs else c # cs)"
  by (auto simp: final_segment_def takeWhile_append takeWhile_eq_all_conv[THEN iffD2])

lemma last_split_dot: "last (split_dot h) = final_segment h"
proof (induction h)
  case Nil
  show ?case by (simp add: final_segment_def)
next
  case (Cons c cs)
  show ?case
  proof (cases "dot \<in> set cs")
    case True
    then have "tl (split_dot cs) \<noteq> []" by (rule split_dot_with_dot)
    then show ?thesis using Cons True
      by (cases "split_dot cs") (auto simp: final_segment_Cons)
  next
    case False
    then show ?thesis
      by (simp add: split_dot_no_dot final_segment_Cons)
  qed
qed

lemma final_segment_suffix: "\<exists>pre. h = pre @ final_segment h"
proof -
  have "rev h = takeWhile (\<lambda>c. c \<noteq> dot) (rev h) @ dropWhile (\<lambda>c. c \<noteq> dot) (rev h)"
    by simp
  then have "h = rev (dropWhile (\<lambda>c. c \<noteq> dot) (rev h)) @ final_segment h"
    unfolding final_segment_def by (metis rev_append rev_rev_ident)
  then show ?thesis by blast
qed

lemma isdigit_last_host:
  assumes "isdigit (final_segment h)"
  shows "h \<noteq> [] \<and> (is_digit (last h) \<or> is_superscript_digit (last h))"
proof -
  obtain pre where h: "h = pre @ final_segment h" using final_segment_suffix by blast
  from assms have ne: "final_segment h \<noteq> []"
    and ad: "list_all (\<lambda>c. is_digit c \<or> is_superscript_digit c) (final_segment h)"
    by (simp_all add: isdigit_def)
  from ne h have "h \<noteq> []" by auto
  moreover have "last h = last (final_segment h)" using h ne by (metis last_appendR)
  moreover have "is_digit (last (final_segment h)) \<or> is_superscript_digit (last (final_segment h))"
    using ne ad by (simp add: list_all_iff)
  ultimately show ?thesis by simp
qed

lemma init_identity_ident:
  "init_identity reqs logs u h m = (reqs', logs', Inr p) \<Longrightarrow>
   manu p = m \<and> host p = h \<and> url p = u \<and> data p = [] \<and> reqs' = reqs \<and>
   ident p = (if isdigit (final_segment h) then m @ '' '' @ str_int (digit_value (last h) + 1)
              else m @ '' '' @ h)"
  by (auto simp: init_identity_def Let_def last_split_dot int_last_char_def digit_value_def
           split: if_splits sum.splits)

lemma init_identity_requests: "fst (init_identity reqs logs u h m) = reqs"
  by (simp add: init_identity_def Let_def split: sum.splits)

lemma init_identity_total:
  assumes "identifier_defined h"
  shows "\<exists>logs' p. init_identity reqs logs u h m = (reqs, logs', Inr p)"
proof (cases "isdigit (final_segment h)")
  case True
  with assms have "is_digit (last h)" by (simp add: identifier_defined_def)
  moreover from isdigit_last_host[OF True] have "h \<noteq> []" by simp
  ultimately show ?thesis
    using True by (simp add: init_identity_def Let_def last_split_dot int_last_char_def)
next
  case False
  then show ?thesis by (simp add: init_identity_def Let_def last_split_dot)
qed

lemma init_identity_raises:
  assumes "\<not> identifier_defined h"
  shows "init_identity reqs logs u h m = (reqs, logs, Inl ValueError)"
proof -
  from assms have d: "isdigit (final_segment h)" and n: "\<not> is_digit (last h)"
    by (simp_all add: identifier_defined_def)
  from isdigit_last_host[OF d] have "h \<noteq> []" by simp
  with d n show ?thesis
    by (simp add: init_identity_def Let_def last_split_dot int_last_char_def)
qed

text \<open>
  For a constructed processor: if \<open>str.isdigit\<close> accepts the final dot-delimited
  segment of the address, the identifier is the vendor, a space and the decimal form of
  the digit value of the last character of the address plus one; otherwise it is the
  vendor, a space and the address.
\<close>

lemma display_id:
  assumes "Processor_init get h = (reqs, logs, Inr p)"
  shows "(isdigit (final_segment h)
            \<longrightarrow> is_digit (last h) \<and>
                ident p = manu p @ '' '' @ str_int (digit_value (last h) + 1)) \<and>
         (\<not> isdigit (final_segment h) \<longrightarrow> ident p = manu p @ '' '' @ h)"
proof -
  from assms obtain rq lg u m where i: "init_identity rq lg u h m = (reqs, logs, Inr p)"
    by (auto simp: Processor_init_def Let_def split: get_result.splits if_splits sum.splits)
  have "identifier_defined h"
  proof (rule ccontr)
    assume "\<not> identifier_defined h"
    from init_identity_raises[OF this, of rq lg u m] i show False by simp
  qed
  with init_identity_ident[OF i] show ?thesis by (simp add: identifier_defined_def)
qed

lemma display_id_examples:
  "snd (snd (Processor_init (\<lambda>r. answer 200 (JMap [])) ''10.0.0.12'')) = Inr example_processor \<and>
   ident example_processor = ''Megapixel 3'' \<and>
   snd (snd (Processor_init (\<lambda>r. answer 200 (JMap [])) ''led1.local''))
     = Inr \<lparr>url = ''http://led1.local/api/v1/data'', host = ''led1.local'',
            manu = ''Megapixel'', ident = ''Megapixel led1.local'', data = []\<rparr>"
  by code_simp


section \<open>Vendor detection\<close>

lemma init_identity_vendor:
  "snd (snd (init_identity reqs logs u h m)) = Inr p \<Longrightarrow> manu p = m \<and> url p = u"
  using init_identity_ident[of reqs logs u h m] by (cases "init_identity reqs logs u h m") auto

lemma init_identity_returns:
  "identifier_defined h \<Longrightarrow> \<exists>p. snd (snd (init_identity reqs logs u h m)) = Inr p"
  using init_identity_total[of h reqs logs u m] by auto

text \<open>
  Claim C7, amended. If the first probe returns a status from 200 to 299, the first probe
  is the only request and every processor the constructor returns is a Megapixel one. If
  the first probe returns another status and the second probe returns a status outside
  400 to 599, every processor the constructor returns is a Brompton one. In both cases the
  constructor returns a processor for every address whose final segment \<open>str.isdigit\<close>
  rejects or whose last character is one of \<open>0\<close> to \<open>9\<close>. The constructor raises
  when the first probe raises (the second probe is not made then), when the second probe
  raises, and when the second probe returns a status from 400 to 599. When the constructor
  raises a \<open>ConnectionError\<close> or an \<open>HTTPError\<close>, the loop of \<open>main\<close> goes on
  without a processor for that host.
\<close>

theorem vendor_detection:
  "(get (megapixel_request h) = Returned res \<and> 199 < status_code res \<and> status_code res < 300
      \<longrightarrow> fst (Processor_init get h) = [megapixel_request h] \<and>
          (\<forall>p. snd (snd (Processor_init get h)) = Inr p
                 \<longrightarrow> manu p = ''Megapixel'' \<and> url p = MEGAPIXEL_URL h) \<and>
          (identifier_defined h \<longrightarrow> (\<exists>p. snd (snd (Processor_init get h)) = Inr p))) \<and>
   (get (megapixel_request h) = Returned res \<and> \<not> (199 < status_code res \<and> status_code res < 300) \<and>
    get (brompton_request h) = Returned res2 \<and>
    \<not> (400 \<le> status_code res2 \<and> status_code res2 < 600)
      \<longrightarrow> fst (Processor_init get h) = [megapixel_request h, brompton_request h] \<and>
          (\<forall>p. snd (snd (Processor_init get h)) = Inr p
                 \<longrightarrow> manu p = ''Brompton'' \<and> url p = BROMPTON_URL h) \<and>
          (identifier_defined h \<longrightarrow> (\<exists>p. snd (snd (Processor_init get h)) = Inr p))) \<and>
   (get (megapixel_request h) = Raised e
      \<longrightarrow> Processor_init get h = ([megapixel_request h], [], Inl e)) \<and>
   (get (megapixel_request h) = Returned res \<and> \<not> (199 < status_code res \<and> status_code res < 300) \<and>
    get (brompton_request h) = Raised e
      \<longrightarrow> snd (snd (Processor_init get h)) = Inl e) \<and>
   (get (megapixel_request h) = Returned res \<and> \<not> (199 < status_code res \<and> status_code res < 300) \<and>
    get (brompton_request h) = Returned res2 \<and>
    400 \<le> status_code res2 \<and> status_code res2 < 600
      \<longrightarrow> snd (snd (Processor_init get h)) = Inl (HTTPError (str_int (status_code res2)))) \<and>
   (snd (snd (Processor_init get h)) = Inl e \<and> is_caught e
      \<longrightarrow> snd (init_processors get (h # hosts) processors)
            = snd (init_processors get hosts processors))"
proof (intro conjI impI)
  assume a: "get (megapixel_request h) = Returned res \<and> 199 < status_code res \<and>
             status_code res < 300"
  then have i: "Processor_init get h
                = init_identity [megapixel_request h] [] (MEGAPIXEL_URL h) h ''Megapixel''"
    by (simp add: Processor_init_def)
  show "fst (Processor_init get h) = [megapixel_request h]"
    unfolding i by (rule init_identity_requests)
  show "\<forall>p. snd (snd (Processor_init get h)) = Inr p
             \<longrightarrow> manu p = ''Megapixel'' \<and> url p = MEGAPIXEL_URL h"
    unfolding i using init_identity_vendor by blast
  show "\<exists>p. snd (snd (Processor_init get h)) = Inr p" if "identifier_defined h"
    unfolding i using that by (rule init_identity_returns)
next
  assume a: "get (megapixel_request h) = Returned res \<and>
             \<not> (199 < status_code res \<and> status_code res < 300) \<and>
             get (brompton_request h) = Returned res2 \<and>
             \<not> (400 \<le> status_code res2 \<and> status_code res2 < 600)"
  then have i: "Processor_init get h
                = init_identity [megapixel_request h, brompton_request h]
                    [(LOG, DEBUG, ''Failed megapixel URL check: %s'', [AInt (status_code res)])]
                    (BROMPTON_URL h) h ''Brompton''"
    by (auto simp: Processor_init_def raise_for_status_def Let_def)
  show "fst (Processor_init get h) = [megapixel_request h, brompton_request h]"
    unfolding i by (rule init_identity_requests)
  show "\<forall>p. snd (snd (Processor_init get h)) = Inr p
             \<longrightarrow> manu p = ''Brompton'' \<and> url p = BROMPTON_URL h"
    unfolding i using init_identity_vendor by blast
  show "\<exists>p. snd (snd (Processor_init get h)) = Inr p" if "identifier_defined h"
    unfolding i using that by (rule init_identity_returns)
next
  assume "get (megapixel_request h) = Raised e"
  then show "Processor_init get h = ([megapixel_request h], [], Inl e)"
    by (simp add: Processor_init_def)
next
  assume "get (megapixel_request h) = Returned res \<and>
          \<not> (199 < status_code res \<and> status_code res < 300) \<and>
          get (brompton_request h) = Raised e"
  then show "snd (snd (Processor_init get h)) = Inl e"
    by (auto simp: Processor_init_def Let_def)
next
  assume "get (megapixel_request h) = Returned res \<and>
          \<not> (199 < status_code res \<and> status_code res < 300) \<and>
          get (brompton_request h) = Returned res2 \<and>
          400 \<le> status_code res2 \<and> status_code res2 < 600"
  then show "snd (snd (Processor_init get h)) = Inl (HTTPError (str_int (status_code res2)))"
    by (auto simp: Processor_init_def Let_def raise_for_status_def)
next
  assume "snd (snd (Processor_init get h)) = Inl e \<and> is_caught e"
  then show "snd (init_processors get (h # hosts) processors)
            = snd (init_processors get hosts processors)"
    by (cases "Processor_init get h") (auto split: prod.splits)
qed

theorem vendor_detection_witness:
  "fst (Processor_init (probe_env ''led1.local'' (answer 200 (JMap [])) (answer 200 (JMap [])))
          ''led1.local'') = [megapixel_request ''led1.local''] \<and>
   (\<exists>p. snd (snd (Processor_init
                     (probe_env ''led1.local'' (answer 200 (JMap [])) (answer 200 (JMap [])))
                     ''led1.local'')) = Inr p \<and>
        manu p = ''Megapixel'' \<and> url p = MEGAPIXEL_URL ''led1.local'') \<and>
   fst (Processor_init (probe_env ''led1.local'' (answer 404 (JMap [])) (answer 200 (JMap [])))
          ''led1.local'') = [megapixel_request ''led1.local'', brompton_request ''led1.local''] \<and>
   (\<exists>p. snd (snd (Processor_init
                     (probe_env ''led1.local'' (answer 404 (JMap [])) (answer 200 (JMap [])))
                     ''led1.local'')) = Inr p \<and>
        manu p = ''Brompton'' \<and> url p = BROMPTON_URL ''led1.local'') \<and>
   snd (snd (Processor_init (probe_env ''led1.local'' (answer 404 (JMap [])) (answer 503 (JMap [])))
               ''led1.local'')) = Inl (HTTPError ''503'') \<and>
   snd (init_processors (probe_env ''led1.local'' (answer 404 (JMap [])) (answer 503 (JMap [])))
          [''led1.local''] []) = Inr []"
proof -
  let ?h = "''led1.local''"
  let ?ok = "\<lparr>status_code = 200, body = Some (JMap [])\<rparr>"
  let ?nf = "\<lparr>status_code = 404, body = Some (JMap [])\<rparr>"
  let ?un = "\<lparr>status_code = 503, body = Some (JMap [])\<rparr>"
  let ?g1 = "probe_env ?h (answer 200 (JMap [])) (answer 200 (JMap []))"
  let ?g2 = "probe_env ?h (answer 404 (JMap [])) (answer 200 (JMap []))"
  let ?g3 = "probe_env ?h (answer 404 (JMap [])) (answer 503 (JMap []))"
  have ne: "brompton_request ?h \<noteq> megapixel_request ?h"
    by (simp add: brompton_request_def megapixel_request_def)
  have idd: "identifier_defined ?h" by code_simp
  have a1: "?g1 (megapixel_request ?h) = Returned ?ok \<and> 199 < status_code ?ok \<and>
            status_code ?ok < 300"
    by (simp add: probe_env_def answer_def)
  have a2: "?g2 (megapixel_request ?h) = Returned ?nf \<and>
            \<not> (199 < status_code ?nf \<and> status_code ?nf < 300) \<and>
            ?g2 (brompton_request ?h) = Returned ?ok \<and>
            \<not> (400 \<le> status_code ?ok \<and> status_code ?ok < 600)"
    using ne by (simp add: probe_env_def answer_def)
  have a3: "?g3 (megapixel_request ?h) = Returned ?nf \<and>
            \<not> (199 < status_code ?nf \<and> status_code ?nf < 300) \<and>
            ?g3 (brompton_request ?h) = Returned ?un \<and>
            400 \<le> status_code ?un \<and> status_code ?un < 600"
    using ne by (simp add: probe_env_def answer_def)
  have s: "str_int (status_code ?un) = ''503''" by code_simp
  from vendor_detection[of ?g1 ?h ?ok] a1 idd
  have c1: "fst (Processor_init ?g1 ?h) = [megapixel_request ?h] \<and>
            (\<exists>p. snd (snd (Processor_init ?g1 ?h)) = Inr p \<and>
                 manu p = ''Megapixel'' \<and> url p = MEGAPIXEL_URL ?h)"
    by blast
  from vendor_detection[of ?g2 ?h ?nf ?ok] a2 idd
  have c2: "fst (Processor_init ?g2 ?h) = [megapixel_request ?h, brompton_request ?h] \<and>
            (\<exists>p. snd (snd (Processor_init ?g2 ?h)) = Inr p \<and>
                 manu p = ''Brompton'' \<and> url p = BROMPTON_URL ?h)"
    by blast
  from vendor_detection[of ?g3 ?h ?nf ?un] a3
  have c3: "snd (snd (Processor_init ?g3 ?h)) = Inl (HTTPError (str_int (status_code ?un)))"
    by blast
  have "is_caught (HTTPError (str_int (status_code ?un)))" by simp
  with vendor_detection[of ?g3 ?h ?nf ?un "HTTPError (str_int (status_code ?un))" "[]" "[]"] c3
  have "snd (init_processors ?g3 [?h] []) = snd (init_processors ?g3 [] [])"
    by blast
  then have c4: "snd (init_processors ?g3 [?h] []) = Inr []" by simp
  from c1 c2 c3 c4 s show ?thesis by (simp only:)
qed

text \<open>
  The first probe is refused and the second one would be answered with 200: the
  constructor raises the \<open>ConnectionError\<close> after one request, and the second probe is
  not made.
\<close>

theorem refused_first_probe_ends_detection:
  "probe_env ''led1.local'' (Raised (ConnectionError ''refused'')) (answer 200 (JMap []))
     (brompton_request ''led1.local'') = answer 200 (JMap []) \<and>
   Processor_init
     (probe_env ''led1.local'' (Raised (ConnectionError ''refused'')) (answer 200 (JMap [])))
     ''led1.local''
   = ([megapixel_request ''led1.local''], [], Inl (ConnectionError ''refused''))"
  by (simp add: probe_env_def Processor_init_def brompton_request_def megapixel_request_def)

end
